theory Spec2Isabelle
  imports Main "HOL-Library.Word"
begin

unbundle bit_operations_syntax

section \<open>SafeFormat: the type-safe printf of Loki\<close>

text \<open>
  A shallow embedding of \<^verbatim>\<open>SafeFormat.h\<close>: the three \<^verbatim>\<open>write\<close> overloads
  (the sinks) and the class template \<^verbatim>\<open>PrintfState<Device, Char>\<close> with
  \<^verbatim>\<open>Char = char\<close>.

  Data model. The header passes \<^verbatim>\<open>width_\<close> and \<^verbatim>\<open>prec_\<close> (both
  \<^verbatim>\<open>size_t\<close>) to \<^verbatim>\<open>ParseDecimalUInt(unsigned int&)\<close> and converts pointers to
  \<^verbatim>\<open>unsigned long\<close>, which is well-formed exactly where \<^verbatim>\<open>size_t\<close>,
  \<^verbatim>\<open>unsigned int\<close>, \<^verbatim>\<open>unsigned long\<close> and pointers all have the same size.
  The embedding therefore fixes the ILP32 data model: \<^verbatim>\<open>int\<close>, \<^verbatim>\<open>long\<close>,
  \<^verbatim>\<open>size_t\<close> and \<^verbatim>\<open>ptrdiff_t\<close> are 32 bits wide, \<^verbatim>\<open>short\<close> is 16 bits.
  Unsigned arithmetic wraps (it is arithmetic on \<open>32 word\<close>); a signed value is
  the \<open>sint\<close> of its word.
\<close>

type_synonym ulong = "32 word"
type_synonym size_t = "32 word"
type_synonym uint = "32 word"
type_synonym ushort = "16 word"
type_synonym uchar = "8 word"

definition LONG_MIN :: int where
  "LONG_MIN = - (2 ^ 31)"

definition INT_MAX :: int where
  "INT_MAX = 2 ^ 31 - 1"

definition NUL :: char where
  "NUL = CHR 0x00"

subsection \<open>Faults\<close>

text \<open>
  Everything that leaves the normal control flow is a value:
  \<^item> \<open>overflow_error\<close>: the exception \<^verbatim>\<open>std::overflow_error\<close> thrown by the
    fixed-size buffer sink;
  \<^item> \<open>assertion_failed\<close>: an \<^verbatim>\<open>assert\<close> of the source does not hold;
  \<^item> \<open>buffer_overrun\<close>: \<^verbatim>\<open>copy\<close> stores past the end of the fixed-size
    buffer (undefined behaviour);
  \<^item> \<open>out_of_bounds_read\<close>: the format cursor is dereferenced outside the
    format string and its terminating zero (undefined behaviour);
  \<^item> \<open>signed_overflow\<close>: \<^verbatim>\<open>result_ += x\<close> leaves the range of \<^verbatim>\<open>int\<close>
    (undefined behaviour);
  \<^item> \<open>no_digits\<close>: the digit loop does not return (it divides by a
    base of 0, or runs forever with a base of 1).
\<close>

datatype fault =
    overflow_error
  | assertion_failed
  | buffer_overrun
  | out_of_bounds_read
  | signed_overflow
  | no_digits

fun thenF :: "fault + 'a \<Rightarrow> ('a \<Rightarrow> fault + 'b) \<Rightarrow> fault + 'b" where
  "thenF (Inl e) f = Inl e"
| "thenF (Inr x) f = f x"

lemma thenF_cong [fundef_cong]:
  "m = m' \<Longrightarrow> (\<And>x. m' = Inr x \<Longrightarrow> f x = f' x) \<Longrightarrow> thenF m f = thenF m' f'"
  by (cases m') auto

subsection \<open>The sinks\<close>

text \<open>
  \<^verbatim>\<open>Device\<close> is \<^verbatim>\<open>std::FILE*\<close>, \<^verbatim>\<open>std::string&\<close> or
  \<^verbatim>\<open>std::pair<Char*, std::size_t>\<close>. A file and a string are the characters
  written to them so far. The pair is a pointer into a character array and
  the number of elements left: \<open>BufDev buf first second\<close> holds the whole array
  \<open>buf\<close>, the offset \<open>first\<close> of the pointer \<^verbatim>\<open>s.first\<close> in it and the
  counter \<^verbatim>\<open>s.second\<close>.
\<close>

datatype device =
    FileDev string
  | StringDev string
  | BufDev string nat size_t

text \<open>
  \<^verbatim>\<open>write(Device, from, to)\<close>. The range \<^verbatim>\<open>[from, to)\<close> is the list
  \<open>xs\<close> of its characters, so \<^verbatim>\<open>to - from\<close> is \<open>length xs\<close> and
  \<^verbatim>\<open>assert(from <= to)\<close> holds by construction. For the pair, the test
  \<^verbatim>\<open>from + s.second > to\<close> compares the two pointers \<^verbatim>\<open>from + s.second\<close>
  and \<^verbatim>\<open>from + (to - from)\<close>, that is \<^verbatim>\<open>s.second\<close> with
  \<^verbatim>\<open>to - from\<close>; \<^verbatim>\<open>s.second -= to - from\<close> is unsigned and wraps.
  The comparison is that of the two counts: the pointer sum
  \<^verbatim>\<open>from + s.second\<close> is taken as it is inside the address space. A counter
  so large that the sum leaves the address space (as the counter is after
  the wrap of \<^verbatim>\<open>s.second -= to - from\<close>) makes the pointer sum undefined;
  a flat 32-bit machine would wrap the sum, not throw, and store.
\<close>

fun write_dev :: "device \<Rightarrow> string \<Rightarrow> fault + device" where
  "write_dev (FileDev out) xs = Inr (FileDev (out @ xs))"
| "write_dev (StringDev out) xs = Inr (StringDev (out @ xs))"
| "write_dev (BufDev buf first second) xs =
     (if unat second > length xs then Inl overflow_error
      else if first + length xs > length buf then Inl buffer_overrun
      else Inr (BufDev (take first buf @ xs @ drop (first + length xs) buf)
                  (first + length xs)
                  (second - of_nat (length xs))))"

text \<open>The characters a sink has received.\<close>

fun emitted :: "device \<Rightarrow> string" where
  "emitted (FileDev out) = out"
| "emitted (StringDev out) = out"
| "emitted (BufDev buf first second) = take first buf"

fun unbounded :: "device \<Rightarrow> bool" where
  "unbounded (FileDev out) = True"
| "unbounded (StringDev out) = True"
| "unbounded (BufDev buf first second) = False"

text \<open>
  \<^verbatim>\<open>BufPrintf(buf, format)\<close> starts from \<^verbatim>\<open>temp(buf, N)\<close>: the pointer
  at the start of the array \<open>buf\<close> and all \<open>N\<close> elements left.
\<close>

definition BufPrintf_device :: "string \<Rightarrow> device" where
  "BufPrintf_device buf = BufDev buf 0 (of_nat (length buf))"

subsection \<open>The formatting state\<close>

text \<open>
  The data members of \<^verbatim>\<open>PrintfState\<close> (an identifier cannot end in an
  underscore here, so \<^verbatim>\<open>device_\<close> is \<open>device\<close>, and so on). The pointer
  \<^verbatim>\<open>format_\<close> is the pair of the immutable format string \<open>fmt\<close>, without
  its terminating zero, and the offset \<open>format\<close> of the cursor in it.
\<close>

record PrintfState =
  device :: device
  fmt :: string
  format :: nat
  width :: size_t
  prec :: size_t
  flags :: uint
  result :: int

text \<open>
  \<^verbatim>\<open>format_[k]\<close>: a character of the string, the terminating zero right
  after it, and a fault beyond.
\<close>

definition char_at :: "PrintfState \<Rightarrow> nat \<Rightarrow> fault + char" where
  "char_at s j =
     (if j < length (fmt s) then Inr (fmt s ! j)
      else if j = length (fmt s) then Inr NUL
      else Inl out_of_bounds_read)"

definition peek :: "PrintfState \<Rightarrow> nat \<Rightarrow> fault + char" where
  "peek s k = char_at s (format s + k)"

text \<open>\<^verbatim>\<open>++format_\<close> and \<^verbatim>\<open>format_ += 2\<close>.\<close>

definition skip :: "nat \<Rightarrow> PrintfState \<Rightarrow> PrintfState" where
  "skip k s = s\<lparr>format := format s + k\<rparr>"

text \<open>The characters of the format string in \<^verbatim>\<open>[begin, end)\<close>.\<close>

definition fmt_range :: "PrintfState \<Rightarrow> nat \<Rightarrow> nat \<Rightarrow> string" where
  "fmt_range s b e = take (e - b) (drop b (fmt s))"

subsubsection \<open>Flags\<close>

definition leftJustify :: uint where "leftJustify = 1"
definition showSignAlways :: uint where "showSignAlways = 2"
definition blank :: uint where "blank = 4"
definition alternateForm :: uint where "alternateForm = 8"
definition fillZeros :: uint where "fillZeros = 16"
definition forceShort :: uint where "forceShort = 32"

definition LeftJustify :: "PrintfState \<Rightarrow> bool" where
  "LeftJustify s = ((flags s AND leftJustify) \<noteq> 0)"

definition ShowSignAlways :: "PrintfState \<Rightarrow> bool" where
  "ShowSignAlways s = ((flags s AND showSignAlways) \<noteq> 0)"

definition SetWidth :: "size_t \<Rightarrow> PrintfState \<Rightarrow> PrintfState" where
  "SetWidth w s = s\<lparr>width := w\<rparr>"

definition SetLeftJustify :: "PrintfState \<Rightarrow> PrintfState" where
  "SetLeftJustify s = s\<lparr>flags := flags s OR leftJustify\<rparr>"

definition SetShowSignAlways :: "PrintfState \<Rightarrow> PrintfState" where
  "SetShowSignAlways s = s\<lparr>flags := flags s OR showSignAlways\<rparr>"

definition Blank :: "PrintfState \<Rightarrow> bool" where
  "Blank s = ((flags s AND blank) \<noteq> 0)"

definition AlternateForm :: "PrintfState \<Rightarrow> bool" where
  "AlternateForm s = ((flags s AND alternateForm) \<noteq> 0)"

definition FillZeros :: "PrintfState \<Rightarrow> bool" where
  "FillZeros s = ((flags s AND fillZeros) \<noteq> 0)"

definition ForceShort :: "PrintfState \<Rightarrow> bool" where
  "ForceShort s = ((flags s AND forceShort) \<noteq> 0)"

definition SetPrec :: "size_t \<Rightarrow> PrintfState \<Rightarrow> PrintfState" where
  "SetPrec p s = s\<lparr>prec := p\<rparr>"

definition SetBlank :: "PrintfState \<Rightarrow> PrintfState" where
  "SetBlank s = s\<lparr>flags := flags s OR blank\<rparr>"

definition SetAlternateForm :: "PrintfState \<Rightarrow> PrintfState" where
  "SetAlternateForm s = s\<lparr>flags := flags s OR alternateForm\<rparr>"

definition SetFillZeros :: "PrintfState \<Rightarrow> PrintfState" where
  "SetFillZeros s = s\<lparr>flags := flags s OR fillZeros\<rparr>"

definition ResetFillZeros :: "PrintfState \<Rightarrow> PrintfState" where
  "ResetFillZeros s = s\<lparr>flags := flags s AND NOT fillZeros\<rparr>"

definition SetForceShort :: "PrintfState \<Rightarrow> PrintfState" where
  "SetForceShort s = s\<lparr>flags := flags s OR forceShort\<rparr>"

text \<open>\<^verbatim>\<open>EOF\<close> is \<open>-1\<close>; \<^verbatim>\<open>size_t(-1)\<close> is the word \<open>-1\<close>.\<close>

definition ResetAll :: "PrintfState \<Rightarrow> fault + PrintfState" where
  "ResetAll s =
     (if result s = - 1 then Inl assertion_failed
      else Inr (s\<lparr>width := 0, prec := - 1, flags := 0\<rparr>))"

subsubsection \<open>Write and Fill\<close>

text \<open>
  \<^verbatim>\<open>Write(b, e)\<close> with the range as the list of its characters: the sink
  is written first, then \<^verbatim>\<open>result_ += x\<close> is an addition of two
  \<^verbatim>\<open>int\<close> values.
\<close>

definition Write :: "string \<Rightarrow> PrintfState \<Rightarrow> fault + PrintfState" where
  "Write xs s =
     (if result s < 0 then Inr s
      else thenF (write_dev (device s) xs) (\<lambda>d.
        if result s + int (length xs) > INT_MAX then Inl signed_overflow
        else Inr (s\<lparr>device := d, result := result s + int (length xs)\<rparr>)))"

function Fill :: "char \<Rightarrow> size_t \<Rightarrow> PrintfState \<Rightarrow> fault + PrintfState" where
  "Fill c n s =
     (if n > 0 then thenF (Write [c] s) (\<lambda>s'. Fill c (n - 1) s') else Inr s)"
  by pat_completeness auto
termination
  by (relation "measure (\<lambda>(c, n, s). unat n)") (auto simp: measure_unat word_greater_zero_iff)

declare Fill.simps [simp del]

subsubsection \<open>Scanning the format string\<close>

lemma peek_in_string:
  "peek s 0 = Inr c \<Longrightarrow> c \<noteq> NUL \<Longrightarrow> format s < length (fmt s)"
  by (auto simp: peek_def char_at_def split: if_splits)

lemma peek_next_in_string:
  "peek s 1 = Inr c \<Longrightarrow> c \<noteq> NUL \<Longrightarrow> Suc (format s) < length (fmt s)"
  by (auto simp: peek_def char_at_def split: if_splits)

function ReadFlags :: "PrintfState \<Rightarrow> fault + PrintfState" where
  "ReadFlags s =
     thenF (peek s 0) (\<lambda>c.
       if c = CHR ''-'' then ReadFlags (skip 1 (SetLeftJustify s))
       else if c = CHR ''+'' then ReadFlags (skip 1 (SetShowSignAlways s))
       else if c = CHR '' '' then ReadFlags (skip 1 (SetBlank s))
       else if c = CHR ''#'' then ReadFlags (skip 1 (SetAlternateForm s))
       else if c = CHR ''0'' then ReadFlags (skip 1 (SetFillZeros s))
       else Inr s)"
  by pat_completeness auto
termination
  by (relation "measure (\<lambda>s. length (fmt s) - format s)")
     (auto simp: skip_def SetLeftJustify_def SetShowSignAlways_def SetBlank_def
        SetAlternateForm_def SetFillZeros_def NUL_def dest!: peek_in_string)

declare ReadFlags.simps [simp del]

text \<open>
  \<^verbatim>\<open>std::isdigit(c, std::locale())\<close> in the classic locale: the ten decimal
  digits.
\<close>

definition isdigit :: "char \<Rightarrow> bool" where
  "isdigit c = (c \<in> set ''0123456789'')"

text \<open>
  The \<^verbatim>\<open>do ... while\<close> loop of \<^verbatim>\<open>ParseDecimalUInt\<close>, entered at a
  digit; \<open>r\<close> is an \<^verbatim>\<open>unsigned int\<close> and wraps.
\<close>

function ParseDecimalUInt_loop :: "uint \<Rightarrow> PrintfState \<Rightarrow> fault + uint \<times> PrintfState" where
  "ParseDecimalUInt_loop r s =
     thenF (peek s 0) (\<lambda>c.
       let r' = r * 10 + (of_char c - of_char CHR ''0'')
       in thenF (peek (skip 1 s) 0) (\<lambda>c'.
            if isdigit c' then ParseDecimalUInt_loop r' (skip 1 s)
            else Inr (r', skip 1 s)))"
  by pat_completeness auto
termination
  by (relation "measure (\<lambda>(r, s). Suc (length (fmt s)) - format s)")
     (auto simp: skip_def isdigit_def NUL_def dest!: peek_in_string)

declare ParseDecimalUInt_loop.simps [simp del]

text \<open>The reference parameter \<^verbatim>\<open>dest\<close> is the setter of the member passed.\<close>

definition ParseDecimalUInt ::
    "(uint \<Rightarrow> PrintfState \<Rightarrow> PrintfState) \<Rightarrow> PrintfState \<Rightarrow> fault + PrintfState" where
  "ParseDecimalUInt dest s =
     thenF (peek s 0) (\<lambda>c.
       if \<not> isdigit c then Inr s
       else thenF (ParseDecimalUInt_loop 0 s) (\<lambda>(r, s'). Inr (dest r s')))"

definition ReadWidth :: "PrintfState \<Rightarrow> fault + PrintfState" where
  "ReadWidth s = ParseDecimalUInt SetWidth s"

definition ReadPrecision :: "PrintfState \<Rightarrow> fault + PrintfState" where
  "ReadPrecision s =
     thenF (peek s 0) (\<lambda>c.
       if c \<noteq> CHR ''.'' then Inl assertion_failed
       else ParseDecimalUInt SetPrec (skip 1 s))"

definition ReadModifiers :: "PrintfState \<Rightarrow> fault + PrintfState" where
  "ReadModifiers s =
     thenF (peek s 0) (\<lambda>c.
       if c = CHR ''h'' then Inr (skip 1 (SetForceShort s))
       else if c = CHR ''l'' then Inr (skip 1 s)
       else Inr s)"

definition ReadLeaders :: "PrintfState \<Rightarrow> fault + PrintfState" where
  "ReadLeaders s =
     thenF (ReadFlags s) (\<lambda>s1.
     thenF (ReadWidth s1) (\<lambda>s2.
     thenF (peek s2 0) (\<lambda>c.
     thenF (if c = CHR ''.'' then ReadPrecision s2 else Inr s2) (\<lambda>s3.
     ReadModifiers s3))))"

lemma Write_keeps_cursor:
  "Write xs s = Inr s' \<Longrightarrow> fmt s' = fmt s \<and> format s' = format s"
  by (cases "write_dev (device s) xs") (auto simp: Write_def split: if_splits)

text \<open>
  The loop of \<^verbatim>\<open>Advance\<close>, with the local \<^verbatim>\<open>begin\<close> as an argument.
\<close>

function Advance_loop :: "nat \<Rightarrow> PrintfState \<Rightarrow> fault + PrintfState" where
  "Advance_loop begin s =
     thenF (peek s 0) (\<lambda>c.
       if c = CHR ''%'' then
         thenF (peek s 1) (\<lambda>c1.
           if c1 \<noteq> CHR ''%'' then
             thenF (Write (fmt_range s begin (format s)) s) (\<lambda>s'. Inr (skip 1 s'))
           else
             thenF (Write (fmt_range s begin (format s + 1)) s) (\<lambda>s'.
               Advance_loop (format s' + 2) (skip 2 s')))
       else if c = NUL then Write (fmt_range s begin (format s)) s
       else Advance_loop begin (skip 1 s))"
  by pat_completeness auto
termination
  by (relation "measure (\<lambda>(b, s). Suc (length (fmt s)) - format s)")
     (auto simp: skip_def NUL_def dest!: peek_in_string peek_next_in_string Write_keeps_cursor)

declare Advance_loop.simps [simp del]

definition Advance :: "PrintfState \<Rightarrow> fault + PrintfState" where
  "Advance s = thenF (ResetAll s) (\<lambda>s'. Advance_loop (format s') s')"

definition Next :: "PrintfState \<Rightarrow> fault + PrintfState" where
  "Next s = Advance (skip 1 s)"

text \<open>
  The constructor. \<^verbatim>\<open>width_\<close>, \<^verbatim>\<open>prec_\<close> and \<^verbatim>\<open>flags_\<close> have no
  initialiser; \<^verbatim>\<open>Advance\<close> sets them before anything reads them.
\<close>

definition PrintfState_ctor :: "device \<Rightarrow> string \<Rightarrow> fault + PrintfState" where
  "PrintfState_ctor dev f =
     Advance \<lparr>device = dev, fmt = f, format = 0, width = 0, prec = 0, flags = 0, result = 0\<rparr>"

subsubsection \<open>The integer renderer\<close>

text \<open>
  One digit: \<^verbatim>\<open>Char c = n - next * base; c += (c <= 9) ? '0' : hex1st - 10\<close>,
  with the character as its unsigned value.
\<close>

definition digit_char :: "ulong \<Rightarrow> bool \<Rightarrow> char" where
  "digit_char d uppercase =
     (let hex1st = (if uppercase then CHR ''A'' else CHR ''a'');
          c = unat d mod 256
      in char_of (c + (if c \<le> 9 then of_char CHR ''0'' else of_char hex1st - 10)))"

text \<open>
  \<^verbatim>\<open>RenderWithoutSign(unsigned long, ...)\<close>. The digits are stored from
  \<^verbatim>\<open>bufLast\<close> downwards; \<open>acc\<close> is the part of the buffer after
  \<^verbatim>\<open>bufLast\<close>, and the value returned is the buffer from the pointer
  returned up to \<^verbatim>\<open>bufEnd\<close>.
\<close>

partial_function (option) RenderWithoutSign_ulong ::
    "ulong \<Rightarrow> string \<Rightarrow> uint \<Rightarrow> bool \<Rightarrow> string option" where
  "RenderWithoutSign_ulong n acc base uppercase =
     (if base = 0 then None
      else
        let next = n div base;
            c = digit_char (n - next * base) uppercase
        in if next = 0 then Some (c # acc)
           else RenderWithoutSign_ulong next (c # acc) base uppercase)"

declare RenderWithoutSign_ulong.simps [code]

text \<open>\<^verbatim>\<open>--(*save)\<close>: the last character of the buffer, decremented.\<close>

definition decrement_last :: "string \<Rightarrow> string" where
  "decrement_last ds = butlast ds @ [char_of (of_char (last ds) + (255 :: nat))]"

text \<open>
  \<^verbatim>\<open>RenderWithoutSign(long, ...)\<close>; the \<^verbatim>\<open>long\<close> is the signed reading
  of the word \<open>n\<close>.
\<close>

definition RenderWithoutSign_long ::
    "ulong \<Rightarrow> string \<Rightarrow> uint \<Rightarrow> bool \<Rightarrow> string option" where
  "RenderWithoutSign_long n acc base uppercase =
     (if sint n \<noteq> LONG_MIN then
        RenderWithoutSign_ulong (if sint n < 0 then - n else n) acc base uppercase
      else map_option decrement_last
             (RenderWithoutSign_ulong (n + 1) acc base uppercase))"

text \<open>
  \<^verbatim>\<open>strchr(str, c)\<close> is not null: \<open>c\<close> occurs in \<open>str\<close>, whose terminating
  zero is part of it.
\<close>

definition strchr :: "string \<Rightarrow> char \<Rightarrow> bool" where
  "strchr str c = (c \<in> set str \<or> c = NUL)"

text \<open>
  The last part of \<^verbatim>\<open>FormatWithCurrentFlags\<close>, from the comment
  \<^verbatim>\<open>// ok, all computed, ready to print to device\<close> to the call of
  \<^verbatim>\<open>Next()\<close>, over the locals it reads; \<open>digits\<close> is the range
  \<^verbatim>\<open>[bufLast, bufEnd)\<close>.
\<close>

definition print_field ::
    "size_t \<Rightarrow> char \<Rightarrow> size_t \<Rightarrow> char \<Rightarrow> size_t \<Rightarrow> string \<Rightarrow> size_t \<Rightarrow>
     PrintfState \<Rightarrow> fault + PrintfState" where
  "print_field countPadLeft signChar countBase formatChar countZeros digits countPadRight s0 =
     thenF (Fill CHR '' '' countPadLeft s0) (\<lambda>s1.
     thenF (if signChar \<noteq> NUL then Write [signChar] s1 else Inr s1) (\<lambda>s2.
     thenF (if countBase > 0 then Fill CHR ''0'' 1 s2 else Inr s2) (\<lambda>s3.
     thenF (if countBase = 2 then Fill formatChar 1 s3 else Inr s3) (\<lambda>s4.
     thenF (Fill CHR ''0'' countZeros s4) (\<lambda>s5.
     thenF (Write digits s5) (\<lambda>s6.
     thenF (Fill CHR '' '' countPadRight s6) (\<lambda>s7.
     Next s7)))))))"

text \<open>
  The middle part of \<^verbatim>\<open>FormatWithCurrentFlags\<close>, from the comment
  \<^verbatim>\<open>// precision\<close> to the transfer of the padding to the zeros: the
  counts \<^verbatim>\<open>countPadLeft\<close>, \<^verbatim>\<open>countBase\<close>, \<^verbatim>\<open>countZeros\<close> and
  \<^verbatim>\<open>countPadRight\<close> that the last part reads, all of them
  \<^verbatim>\<open>size_t\<close>. \<open>digits\<close> is the range \<^verbatim>\<open>[bufLast, bufEnd)\<close>.
\<close>

definition field_counts ::
    "string \<Rightarrow> char \<Rightarrow> uint \<Rightarrow> char \<Rightarrow> ulong \<Rightarrow> PrintfState \<Rightarrow>
     size_t \<times> size_t \<times> size_t \<times> size_t" where
  "field_counts digits signChar base formatChar i s =
     (let countDigits = (of_nat (length digits) :: size_t);
          countZeros0 =
            (if prec s \<noteq> - 1 \<and> countDigits < prec s \<and> formatChar \<noteq> CHR ''c''
             then prec s - countDigits else 0);
          countBase =
            (if base \<noteq> 10 \<and> AlternateForm s \<and> i \<noteq> 0
             then (if base = 16 then 2 else if countZeros0 > 0 then 0 else 1)
             else (0 :: size_t));
          countSign = (if signChar \<noteq> NUL then 1 else (0 :: size_t));
          totalPrintable = countDigits + countZeros0 + countBase + countSign;
          countPadRight =
            (if width s > totalPrintable \<and> LeftJustify s
             then width s - totalPrintable else 0);
          countPadLeft0 =
            (if width s > totalPrintable \<and> \<not> LeftJustify s
             then width s - totalPrintable else 0);
          transfer = (FillZeros s \<and> prec s = - 1);
          countZeros = (if transfer then countPadLeft0 else countZeros0);
          countPadLeft = (if transfer then 0 else countPadLeft0)
      in (countPadLeft, countBase, countZeros, countPadRight))"

text \<open>
  \<^verbatim>\<open>FormatWithCurrentFlags(i)\<close>: the first part (the conversion character,
  the digits and the sign), then \<open>field_counts\<close> and \<open>print_field\<close>.
\<close>

definition FormatWithCurrentFlags :: "ulong \<Rightarrow> PrintfState \<Rightarrow> fault + PrintfState" where
  "FormatWithCurrentFlags i s0 =
     thenF (peek s0 0) (\<lambda>formatChar0.
       let isSigned0 = (formatChar0 = CHR ''d'' \<or> formatChar0 = CHR ''i'');
           isP = (formatChar0 = CHR ''p'');
           formatChar = (if isP then CHR ''x'' else formatChar0);
           s1 = (if isP then SetAlternateForm s0 else s0);
           isSigned = (if isP then True else isSigned0)
       in if \<not> strchr ''cdiuoxX'' formatChar then Inr (s1\<lparr>result := - 1\<rparr>)
          else
            let isC = (formatChar = CHR ''c'');
                s = (if isC then ResetFillZeros s1 else s1);
                negative = (isSigned \<and> sint i < 0);
                base = (if isC then 10
                        else if formatChar = CHR ''o'' then 8
                        else if formatChar = CHR ''x'' \<or> formatChar = CHR ''X'' then 16
                        else 10);
                rendered =
                  (if isC then Some [char_of (unat i)]
                   else if isSigned
                     then RenderWithoutSign_long i [] base (formatChar = CHR ''X'')
                     else RenderWithoutSign_ulong i [] base (formatChar = CHR ''X''));
                signChar =
                  (if \<not> isC \<and> isSigned then
                     (if negative then CHR ''-''
                      else if ShowSignAlways s then CHR ''+''
                      else if Blank s then CHR '' ''
                      else NUL)
                   else NUL)
            in case rendered of
                 None \<Rightarrow> Inl no_digits
               | Some digits \<Rightarrow>
                   (case field_counts digits signChar base formatChar i s of
                      (countPadLeft, countBase, countZeros, countPadRight) \<Rightarrow>
                        print_field countPadLeft signChar countBase formatChar countZeros
                          digits countPadRight s))"

subsubsection \<open>Consuming an argument\<close>

text \<open>
  \<^verbatim>\<open>operator()(unsigned long i)\<close>. \<open>op_ulong_render\<close> is its last part,
  from \<^verbatim>\<open>ReadModifiers()\<close> on, which the source reaches on two paths
  (with and without a precision in the directive).
\<close>

definition op_ulong_render :: "ulong \<Rightarrow> PrintfState \<Rightarrow> fault + PrintfState" where
  "op_ulong_render i s3 =
     thenF (ReadModifiers s3) (\<lambda>s4.
     thenF (peek s4 0) (\<lambda>c.
       let i' =
         (if ForceShort s4 \<and>
             (c = CHR ''x'' \<or> c = CHR ''X'' \<or> c = CHR ''u'' \<or> c = CHR ''o'')
          then ucast (ucast i :: ushort) else i)
       in FormatWithCurrentFlags i' s4))"

definition op_ulong :: "ulong \<Rightarrow> PrintfState \<Rightarrow> fault + PrintfState" where
  "op_ulong i s =
     (if result s = - 1 then Inr s
      else
        thenF (ReadFlags s) (\<lambda>s1.
        thenF (peek s1 0) (\<lambda>c.
          if c = CHR ''*'' then Inr (skip 1 (SetWidth i s1))
          else
            thenF (ReadWidth s1) (\<lambda>s2.
            thenF (peek s2 0) (\<lambda>c.
              if c = CHR ''.'' then
                thenF (peek s2 1) (\<lambda>c1.
                  if c1 = CHR ''*'' then Inr (skip 2 (SetPrec i s2))
                  else thenF (ReadPrecision s2) (op_ulong_render i))
              else op_ulong_render i s2)))))"

text \<open>
  The overloads made by \<^verbatim>\<open>LOKI_PRINTF_STATE_FORWARD\<close>: each is
  \<^verbatim>\<open>static_cast<unsigned long>(par)\<close>, a sign extension for the signed
  types and a zero extension for the unsigned ones. Plain \<^verbatim>\<open>char\<close> is
  taken as signed.
\<close>

definition op_bool :: "bool \<Rightarrow> PrintfState \<Rightarrow> fault + PrintfState" where
  "op_bool par = op_ulong (of_bool par)"

definition op_char :: "uchar \<Rightarrow> PrintfState \<Rightarrow> fault + PrintfState" where
  "op_char par = op_ulong (scast par)"

definition op_schar :: "uchar \<Rightarrow> PrintfState \<Rightarrow> fault + PrintfState" where
  "op_schar par = op_ulong (scast par)"

definition op_uchar :: "uchar \<Rightarrow> PrintfState \<Rightarrow> fault + PrintfState" where
  "op_uchar par = op_ulong (ucast par)"

definition op_short :: "ushort \<Rightarrow> PrintfState \<Rightarrow> fault + PrintfState" where
  "op_short par = op_ulong (scast par)"

definition op_ushort :: "ushort \<Rightarrow> PrintfState \<Rightarrow> fault + PrintfState" where
  "op_ushort par = op_ulong (ucast par)"

definition op_int :: "uint \<Rightarrow> PrintfState \<Rightarrow> fault + PrintfState" where
  "op_int par = op_ulong (scast par)"

definition op_unsigned :: "uint \<Rightarrow> PrintfState \<Rightarrow> fault + PrintfState" where
  "op_unsigned par = op_ulong (ucast par)"

definition op_long :: "ulong \<Rightarrow> PrintfState \<Rightarrow> fault + PrintfState" where
  "op_long par = op_ulong (scast par)"

text \<open>
  \<^verbatim>\<open>operator()(const void*)\<close>: the pointer is its address.
\<close>

definition op_voidp :: "ulong \<Rightarrow> PrintfState \<Rightarrow> fault + PrintfState" where
  "op_voidp p = op_ulong p"

text \<open>
  \<^verbatim>\<open>operator()(const char* s)\<close>. The argument is the address \<open>p\<close> and
  the characters \<open>str\<close> stored from there on; \<^verbatim>\<open>strlen\<close> counts up to the
  first zero.
\<close>

definition strlen :: "string \<Rightarrow> size_t" where
  "strlen str = of_nat (length (takeWhile (\<lambda>c. c \<noteq> NUL) str))"

definition op_cstr :: "ulong \<Rightarrow> string \<Rightarrow> PrintfState \<Rightarrow> fault + PrintfState" where
  "op_cstr p str s =
     (if result s = - 1 then Inr s
      else
        thenF (ReadLeaders s) (\<lambda>s.
        thenF (peek s 0) (\<lambda>fmtc.
          if fmtc = CHR ''p'' then FormatWithCurrentFlags p s
          else if fmtc \<noteq> CHR ''s'' then Inr (s\<lparr>result := - 1\<rparr>)
          else
            let len = min (strlen str) (prec s)
            in thenF
                 (if width s > len then
                    (if LeftJustify s then
                       thenF (Write (take (unat len) str) s)
                         (\<lambda>s. Fill CHR '' '' (width s - len) s)
                     else
                       thenF (Fill CHR '' '' (width s - len) s)
                         (\<lambda>s. Write (take (unat len) str) s))
                  else Write (take (unat len) str) s)
                 Next)))"

text \<open>
  \<^verbatim>\<open>StoreCountHelper(T* pi)\<close> for \<^verbatim>\<open>T\<close> one of \<^verbatim>\<open>int\<close>,
  \<^verbatim>\<open>short\<close>, \<^verbatim>\<open>long\<close>. The argument is the address \<open>pi\<close>; the second
  component of the value returned is what has been stored in \<^verbatim>\<open>*pi\<close>,
  \<open>None\<close> when nothing has. \<open>conv\<close> is the conversion of \<^verbatim>\<open>int\<close> to
  \<^verbatim>\<open>T\<close>.
\<close>

definition StoreCountHelper ::
    "(int \<Rightarrow> int) \<Rightarrow> ulong \<Rightarrow> PrintfState \<Rightarrow> fault + PrintfState \<times> int option" where
  "StoreCountHelper conv pi s =
     (if result s = - 1 then Inr (s, None)
      else
        thenF (ReadLeaders s) (\<lambda>s.
        thenF (peek s 0) (\<lambda>fmtc.
          if fmtc = CHR ''p'' then
            thenF (FormatWithCurrentFlags pi s) (\<lambda>s. Inr (s, None))
          else if fmtc \<noteq> CHR ''n'' then Inr (s\<lparr>result := - 1\<rparr>, None)
          else if pi = 0 then Inl assertion_failed
          else thenF (Next s) (\<lambda>s'. Inr (s', Some (conv (result s)))))))"

definition op_int_ptr :: "ulong \<Rightarrow> PrintfState \<Rightarrow> fault + PrintfState \<times> int option" where
  "op_int_ptr pi = StoreCountHelper (\<lambda>r. r) pi"

definition op_short_ptr :: "ulong \<Rightarrow> PrintfState \<Rightarrow> fault + PrintfState \<times> int option" where
  "op_short_ptr pi = StoreCountHelper (\<lambda>r. sint (word_of_int r :: ushort)) pi"

definition op_long_ptr :: "ulong \<Rightarrow> PrintfState \<Rightarrow> fault + PrintfState \<times> int option" where
  "op_long_ptr pi = StoreCountHelper (\<lambda>r. r) pi"

text \<open>
  \<^verbatim>\<open>PrintFloatingPoint(n)\<close>. The digits come from the platform's
  \<^verbatim>\<open>snprintf\<close>: \<open>snprintf_n directive\<close> is the value it returns and the
  zero-terminated text it leaves in \<^verbatim>\<open>resultBuf\<close> for the argument
  \<^verbatim>\<open>n\<close>. \<open>PrintFloatingPoint_sprintf\<close> is the part after the comment
  \<^verbatim>\<open>// format char validated, copy it to a temp and use legacy sprintf\<close>,
  with the local \<^verbatim>\<open>fmt\<close> as the offset \<open>fmtp\<close>.
\<close>

definition PrintFloatingPoint_sprintf ::
    "(string \<Rightarrow> int \<times> string) \<Rightarrow> nat \<Rightarrow> PrintfState \<Rightarrow> fault + PrintfState" where
  "PrintFloatingPoint_sprintf snprintf_n fmtp s0 =
     (let s = skip 1 s0
      in if format s \<ge> fmtp + 128 then Inr (s\<lparr>result := - 1\<rparr>)
         else
           case snprintf_n (fmt_range s fmtp (format s)) of
             (stored, resultBuf) \<Rightarrow>
               if stored < 0 then Inr (s\<lparr>result := - 1\<rparr>)
               else thenF (Write (takeWhile (\<lambda>c. c \<noteq> NUL) resultBuf) s) Advance)"

definition PrintFloatingPoint ::
    "(string \<Rightarrow> int \<times> string) \<Rightarrow> PrintfState \<Rightarrow> fault + PrintfState" where
  "PrintFloatingPoint snprintf_n s =
     (if format s = 0 then Inl out_of_bounds_read
      else
        thenF (char_at s (format s - 1)) (\<lambda>c0.
          if c0 \<noteq> CHR ''%'' then Inl assertion_failed
          else
            thenF (ReadLeaders s) (\<lambda>s1.
            thenF (peek s1 0) (\<lambda>c.
              if \<not> strchr ''eEfgG'' c then Inr (s1\<lparr>result := - 1\<rparr>)
              else PrintFloatingPoint_sprintf snprintf_n (format s - 1) s1))))"

definition op_double :: "(string \<Rightarrow> int \<times> string) \<Rightarrow> PrintfState \<Rightarrow> fault + PrintfState" where
  "op_double snprintf_n s =
     (if result s = - 1 then Inr s else PrintFloatingPoint snprintf_n s)"

definition op_long_double ::
    "(string \<Rightarrow> int \<times> string) \<Rightarrow> PrintfState \<Rightarrow> fault + PrintfState" where
  "op_long_double snprintf_n s =
     (if result s = - 1 then Inr s else PrintFloatingPoint snprintf_n s)"

text \<open>\<^verbatim>\<open>operator int()\<close>.\<close>

definition operator_int :: "PrintfState \<Rightarrow> int" where
  "operator_int s = result s"

subsubsection \<open>Entry points\<close>

definition SPrintf :: "string \<Rightarrow> string \<Rightarrow> fault + PrintfState" where
  "SPrintf str f = PrintfState_ctor (StringDev str) f"

definition FPrintf :: "string \<Rightarrow> string \<Rightarrow> fault + PrintfState" where
  "FPrintf file f = PrintfState_ctor (FileDev file) f"

definition BufPrintf :: "string \<Rightarrow> string \<Rightarrow> fault + PrintfState" where
  "BufPrintf buf f = PrintfState_ctor (BufPrintf_device buf) f"

subsubsection \<open>Chained calls\<close>

text \<open>
  \<^verbatim>\<open>Printf(format)(a)(b)...\<close>: the overload of \<^verbatim>\<open>operator()\<close> is chosen
  by the static type of each argument. \<open>operator_call\<close> is that choice over a
  tagged argument; its second component is the value stored through a
  count-store pointer, if any. \<open>operator_calls\<close> chains the calls from left
  to right and stops at the first fault.
\<close>

datatype argument =
    ABool bool
  | AChar uchar
  | ASChar uchar
  | AUChar uchar
  | AShort ushort
  | AUShort ushort
  | AInt uint
  | AUnsigned uint
  | ALong ulong
  | AULong ulong
  | ADouble "string \<Rightarrow> int \<times> string"
  | ALongDouble "string \<Rightarrow> int \<times> string"
  | AIntPtr ulong
  | AShortPtr ulong
  | ALongPtr ulong
  | ACStr ulong string
  | AVoidPtr ulong

definition no_store :: "fault + PrintfState \<Rightarrow> fault + PrintfState \<times> int option" where
  "no_store r = thenF r (\<lambda>s. Inr (s, None))"

fun operator_call :: "argument \<Rightarrow> PrintfState \<Rightarrow> fault + PrintfState \<times> int option" where
  "operator_call (ABool b) s = no_store (op_bool b s)"
| "operator_call (AChar c) s = no_store (op_char c s)"
| "operator_call (ASChar c) s = no_store (op_schar c s)"
| "operator_call (AUChar c) s = no_store (op_uchar c s)"
| "operator_call (AShort n) s = no_store (op_short n s)"
| "operator_call (AUShort n) s = no_store (op_ushort n s)"
| "operator_call (AInt n) s = no_store (op_int n s)"
| "operator_call (AUnsigned n) s = no_store (op_unsigned n s)"
| "operator_call (ALong n) s = no_store (op_long n s)"
| "operator_call (AULong n) s = no_store (op_ulong n s)"
| "operator_call (ADouble f) s = no_store (op_double f s)"
| "operator_call (ALongDouble f) s = no_store (op_long_double f s)"
| "operator_call (AIntPtr p) s = op_int_ptr p s"
| "operator_call (AShortPtr p) s = op_short_ptr p s"
| "operator_call (ALongPtr p) s = op_long_ptr p s"
| "operator_call (ACStr p str) s = no_store (op_cstr p str s)"
| "operator_call (AVoidPtr p) s = no_store (op_voidp p s)"

fun operator_calls ::
    "argument list \<Rightarrow> PrintfState \<Rightarrow> fault + PrintfState \<times> int option list" where
  "operator_calls [] s = Inr (s, [])"
| "operator_calls (a # as) s =
     thenF (operator_call a s) (\<lambda>(s1, st).
     thenF (operator_calls as s1) (\<lambda>(s2, sts). Inr (s2, st # sts)))"

subsection \<open>Auxiliary notions\<close>

text \<open>
  Two states with the same sink, the same running result and the same format
  string: what the parsing of a directive leaves alone.
\<close>

definition same_output :: "PrintfState \<Rightarrow> PrintfState \<Rightarrow> bool" where
  "same_output s s' \<longleftrightarrow> device s' = device s \<and> result s' = result s \<and> fmt s' = fmt s"

text \<open>
  The pointer of a fixed-size buffer lies within its array. \<open>emitted_since e0 s\<close>
  is what the sink of \<open>s\<close> has received after the characters \<open>e0\<close> it held
  at construction; \<open>result_counts e0 s\<close> says that the sink still starts with
  \<open>e0\<close> and that the result is the sentinel or the number of characters
  received since.
\<close>

fun wf_device :: "device \<Rightarrow> bool" where
  "wf_device (FileDev out) = True"
| "wf_device (StringDev out) = True"
| "wf_device (BufDev buf first second) = (first \<le> length buf)"

definition emitted_since :: "string \<Rightarrow> PrintfState \<Rightarrow> string" where
  "emitted_since e0 s = drop (length e0) (emitted (device s))"

definition result_counts :: "string \<Rightarrow> PrintfState \<Rightarrow> bool" where
  "result_counts e0 s \<longleftrightarrow>
     wf_device (device s) \<and> take (length e0) (emitted (device s)) = e0 \<and>
     (result s = - 1 \<or> result s = int (length (emitted_since e0 s)))"

text \<open>
  A sink without a capacity takes every write. \<open>emit xs s\<close> is the state
  \<open>s\<close> after \<open>xs\<close> has gone to such a sink and has been counted;
  \<open>room n s\<close> says that the sink of \<open>s\<close> has no capacity, that no error has
  been recorded and that \<open>n\<close> more characters keep \<^verbatim>\<open>result_\<close> within
  \<^verbatim>\<open>int\<close>.
\<close>

fun append_dev :: "device \<Rightarrow> string \<Rightarrow> device" where
  "append_dev (FileDev out) xs = FileDev (out @ xs)"
| "append_dev (StringDev out) xs = StringDev (out @ xs)"
| "append_dev (BufDev buf first second) xs = BufDev buf first second"

definition emit :: "string \<Rightarrow> PrintfState \<Rightarrow> PrintfState" where
  "emit xs s = s\<lparr>device := append_dev (device s) xs, result := result s + int (length xs)\<rparr>"

definition room :: "nat \<Rightarrow> PrintfState \<Rightarrow> bool" where
  "room n s \<longleftrightarrow> unbounded (device s) \<and> 0 \<le> result s \<and> result s + int n \<le> INT_MAX"

text \<open>
  The literal text at the head of a format string as the specification
  describes it: characters are copied until a \<^verbatim>\<open>%\<close> is found,
  \<^verbatim>\<open>%%\<close> stands for one \<^verbatim>\<open>%\<close> and the scan goes on, and the text ends at
  the end of the string or at a \<^verbatim>\<open>%\<close> that opens a directive.
  \<open>literal_skip\<close> is the number of characters of the format string the
  scan passes, the opening \<^verbatim>\<open>%\<close> included.
\<close>

fun literal_text :: "string \<Rightarrow> string" where
  "literal_text [] = []"
| "literal_text (c # cs) =
     (if c = CHR ''%'' then
        (case cs of [] \<Rightarrow> [] | d # ds \<Rightarrow> if d = CHR ''%'' then CHR ''%'' # literal_text ds else [])
      else if c = NUL then []
      else c # literal_text cs)"

fun literal_skip :: "string \<Rightarrow> nat" where
  "literal_skip [] = 0"
| "literal_skip (c # cs) =
     (if c = CHR ''%'' then
        (case cs of [] \<Rightarrow> 1 | d # ds \<Rightarrow> if d = CHR ''%'' then 2 + literal_skip ds else 1)
      else if c = NUL then 0
      else 1 + literal_skip cs)"

text \<open>
  The digits of a number in a base, most significant first, as a plain
  recursion on the number; \<open>digit_of\<close> is the character of one digit.
\<close>

definition digit_of :: "bool \<Rightarrow> nat \<Rightarrow> char" where
  "digit_of uppercase d =
     char_of (d + (if d \<le> 9 then 48 else (if uppercase then 65 else 97) - 10))"

function digits_of :: "nat \<Rightarrow> bool \<Rightarrow> nat \<Rightarrow> string" where
  "digits_of b uppercase n =
     (if b < 2 \<or> n < b then [digit_of uppercase n]
      else digits_of b uppercase (n div b) @ [digit_of uppercase (n mod b)])"
  by pat_completeness auto
termination
  by (relation "measure (\<lambda>(b, uppercase, n). n)") auto

declare digits_of.simps [simp del]

text \<open>
  The field of an integer directive in terms of numbers and strings: for the
  conversion character \<open>c\<close> (one of \<^verbatim>\<open>d i u o x X\<close>), the value \<open>i\<close> and
  the state \<open>s\<close> after the directive has been parsed, the digits, the sign,
  the zeros asked for by the precision, the base prefix, the printable
  content they make up, and the whole field with its padding.
\<close>

definition conv_signed :: "char \<Rightarrow> bool" where
  "conv_signed c \<longleftrightarrow> c = CHR ''d'' \<or> c = CHR ''i''"

definition conv_base :: "char \<Rightarrow> nat" where
  "conv_base c = (if c = CHR ''o'' then 8 else if c = CHR ''x'' \<or> c = CHR ''X'' then 16 else 10)"

definition digit_text :: "char \<Rightarrow> ulong \<Rightarrow> string" where
  "digit_text c i =
     digits_of (conv_base c) (c = CHR ''X'') (if conv_signed c then nat \<bar>sint i\<bar> else unat i)"

definition sign_text :: "char \<Rightarrow> ulong \<Rightarrow> PrintfState \<Rightarrow> string" where
  "sign_text c i s =
     (if conv_signed c then
        (if sint i < 0 then ''-''
         else if ShowSignAlways s then ''+''
         else if Blank s then '' ''
         else [])
      else [])"

definition prec_zeros :: "char \<Rightarrow> ulong \<Rightarrow> PrintfState \<Rightarrow> nat" where
  "prec_zeros c i s =
     (if prec s \<noteq> - 1 then unat (prec s) - length (digit_text c i) else 0)"

definition prefix_text :: "char \<Rightarrow> ulong \<Rightarrow> PrintfState \<Rightarrow> string" where
  "prefix_text c i s =
     (if conv_base c \<noteq> 10 \<and> AlternateForm s \<and> i \<noteq> 0 then
        (if conv_base c = 16 then [CHR ''0'', c]
         else if prec_zeros c i s > 0 then []
         else ''0'')
      else [])"

definition printable :: "char \<Rightarrow> ulong \<Rightarrow> PrintfState \<Rightarrow> string" where
  "printable c i s =
     sign_text c i s @ prefix_text c i s @ replicate (prec_zeros c i s) CHR ''0'' @ digit_text c i"

definition int_field :: "char \<Rightarrow> ulong \<Rightarrow> PrintfState \<Rightarrow> string" where
  "int_field c i s =
     (if unat (width s) \<le> length (printable c i s) then printable c i s
      else if LeftJustify s then
        printable c i s @ replicate (unat (width s) - length (printable c i s)) CHR '' ''
      else if FillZeros s \<and> prec s = - 1 then
        sign_text c i s @ prefix_text c i s @
        replicate (unat (width s) - length (printable c i s)) CHR ''0'' @ digit_text c i
      else
        replicate (unat (width s) - length (printable c i s)) CHR '' '' @ printable c i s)"

text \<open>
  Reading a decimal integer back: spaces, an optional sign, at least one
  digit, and nothing but spaces after the digits.
\<close>

definition dec_value :: "string \<Rightarrow> nat" where
  "dec_value ds = foldl (\<lambda>a c. 10 * a + (of_char c - 48)) 0 ds"

definition parse_decimal :: "string \<Rightarrow> int option" where
  "parse_decimal xs =
     (let ys = dropWhile (\<lambda>c. c = CHR '' '') xs;
          signed = (ys \<noteq> [] \<and> (hd ys = CHR ''-'' \<or> hd ys = CHR ''+''));
          zs = (if signed then tl ys else ys);
          ds = takeWhile isdigit zs;
          rest = dropWhile isdigit zs
      in if ds = [] \<or> \<not> list_all (\<lambda>c. c = CHR '' '') rest then None
         else if ys \<noteq> [] \<and> hd ys = CHR ''-'' then Some (- int (dec_value ds))
         else Some (int (dec_value ds)))"

section \<open>Auxiliary facts\<close>

lemma Write_failed: "result s < 0 \<Longrightarrow> Write xs s = Inr s"
  by (simp add: Write_def)

lemma Fill_failed: "result s < 0 \<Longrightarrow> Fill c n s = Inr s"
proof (induction c n s rule: Fill.induct)
  case (1 c n s)
  then show ?case by (subst Fill.simps) (simp add: Write_failed)
qed

lemma operator_call_failed:
  "result s = - 1 \<Longrightarrow> operator_call a s = Inr (s, None)"
  by (cases a)
     (simp_all add: no_store_def op_bool_def op_char_def op_schar_def op_uchar_def
        op_short_def op_ushort_def op_int_def op_unsigned_def op_long_def op_ulong_def
        op_double_def op_long_double_def op_int_ptr_def op_short_ptr_def op_long_ptr_def
        StoreCountHelper_def op_cstr_def op_voidp_def)

lemma operator_calls_failed:
  "result s = - 1 \<Longrightarrow> operator_calls args s = Inr (s, replicate (length args) None)"
  by (induction args) (simp_all add: operator_call_failed)

lemma uint_of_negative:
  fixes n :: "32 word"
  assumes "sint n < 0"
  shows "uint n = 2 ^ 32 + sint n"
proof -
  have ge: "- (2 ^ 31) \<le> sint n"
    using sint_ge [of n] by simp
  have "uint n = sint n mod 2 ^ 32"
    by (simp add: uint_sint take_bit_eq_mod)
  also have "\<dots> = (sint n + 2 ^ 32) mod 2 ^ 32"
    by simp
  also have "\<dots> = sint n + 2 ^ 32"
    using ge assms by (intro mod_pos_pos_trivial) simp_all
  finally show ?thesis by simp
qed

lemma same_output_refl [simp]: "same_output s s"
  by (simp add: same_output_def)

lemma same_output_trans: "same_output s s1 \<Longrightarrow> same_output s1 s2 \<Longrightarrow> same_output s s2"
  by (simp add: same_output_def)

lemma same_output_simps [simp]:
  "same_output s (skip k s')  = same_output s s'"
  "same_output s (SetWidth w s') = same_output s s'"
  "same_output s (SetPrec w s') = same_output s s'"
  "same_output s (SetLeftJustify s') = same_output s s'"
  "same_output s (SetShowSignAlways s') = same_output s s'"
  "same_output s (SetBlank s') = same_output s s'"
  "same_output s (SetAlternateForm s') = same_output s s'"
  "same_output s (SetFillZeros s') = same_output s s'"
  "same_output s (SetForceShort s') = same_output s s'"
  "same_output s (ResetFillZeros s') = same_output s s'"
  "same_output (skip k s) s'  = same_output s s'"
  "same_output (SetWidth w s) s' = same_output s s'"
  "same_output (SetPrec w s) s' = same_output s s'"
  "same_output (SetLeftJustify s) s' = same_output s s'"
  "same_output (SetShowSignAlways s) s' = same_output s s'"
  "same_output (SetBlank s) s' = same_output s s'"
  "same_output (SetAlternateForm s) s' = same_output s s'"
  "same_output (SetFillZeros s) s' = same_output s s'"
  "same_output (SetForceShort s) s' = same_output s s'"
  "same_output (ResetFillZeros s) s' = same_output s s'"
  by (simp_all add: same_output_def skip_def SetWidth_def SetPrec_def SetLeftJustify_def
      SetShowSignAlways_def SetBlank_def SetAlternateForm_def SetFillZeros_def
      SetForceShort_def ResetFillZeros_def)

lemma thenF_eq_Inr: "thenF m f = Inr y \<longleftrightarrow> (\<exists>x. m = Inr x \<and> f x = Inr y)"
  by (cases m) auto

lemma ReadFlags_same_output: "ReadFlags s = Inr s' \<Longrightarrow> same_output s s'"
proof (induction s rule: ReadFlags.induct)
  case (1 s)
  show ?case using "1.prems" "1.IH"
    by (subst (asm) ReadFlags.simps)
       (auto simp: thenF_eq_Inr split: if_splits)
qed

lemma ParseDecimalUInt_loop_same_output:
  "ParseDecimalUInt_loop r s = Inr (r', s') \<Longrightarrow> same_output s s'"
proof (induction r s rule: ParseDecimalUInt_loop.induct)
  case (1 r s)
  show ?case using "1.prems" "1.IH"
    by (subst (asm) ParseDecimalUInt_loop.simps)
       (auto simp: thenF_eq_Inr Let_def split: if_splits)
qed

lemma ReadWidth_same_output: "ReadWidth s = Inr s' \<Longrightarrow> same_output s s'"
  by (auto simp: ReadWidth_def ParseDecimalUInt_def thenF_eq_Inr split: if_splits
      dest!: ParseDecimalUInt_loop_same_output)

lemma ReadPrecision_same_output: "ReadPrecision s = Inr s' \<Longrightarrow> same_output s s'"
  by (auto simp: ReadPrecision_def ParseDecimalUInt_def thenF_eq_Inr split: if_splits
      dest!: ParseDecimalUInt_loop_same_output)

lemma ReadModifiers_same_output: "ReadModifiers s = Inr s' \<Longrightarrow> same_output s s'"
  by (auto simp: ReadModifiers_def thenF_eq_Inr split: if_splits)

lemma ReadLeaders_same_output: "ReadLeaders s = Inr s' \<Longrightarrow> same_output s s'"
  by (auto simp: ReadLeaders_def thenF_eq_Inr split: if_splits
      dest!: ReadFlags_same_output ReadWidth_same_output ReadPrecision_same_output
        ReadModifiers_same_output intro: same_output_trans)


lemma peek_skip [simp]: "peek (skip k s) j = peek s (k + j)"
  by (simp add: peek_def skip_def char_at_def add.assoc)

lemma FormatWithCurrentFlags_unknown:
  "peek s 0 = Inr c \<Longrightarrow> c \<notin> set ''cdiuoxXp'' \<Longrightarrow> c \<noteq> NUL \<Longrightarrow>
     FormatWithCurrentFlags i s = Inr (s\<lparr>result := - 1\<rparr>)"
  by (simp add: FormatWithCurrentFlags_def strchr_def)

lemma op_ulong_render_unknown:
  assumes "ReadModifiers s3 = Inr s4" "peek s4 0 = Inr c" "c \<notin> set ''cdiuoxXp''" "c \<noteq> NUL"
  shows "op_ulong_render i s3 = Inr (s4\<lparr>result := - 1\<rparr>)"
  using assms by (simp add: op_ulong_render_def Let_def FormatWithCurrentFlags_unknown)

lemma ParseDecimalUInt_stops_at_nondigit:
  "ParseDecimalUInt dest s = Inr s' \<Longrightarrow> peek s 0 = Inr c \<Longrightarrow> \<not> isdigit c \<Longrightarrow> s' = s"
  by (simp add: ParseDecimalUInt_def)

lemma op_ulong_unknown:
  assumes "result s \<noteq> - 1" "ReadLeaders s = Inr s1" "peek s1 0 = Inr c"
    and "c \<notin> set ''cdiuoxXp''" "c \<noteq> NUL" "c \<noteq> CHR ''*''"
  shows "op_ulong i s = Inr (s1\<lparr>result := - 1\<rparr>)"
proof -
  from assms(2) obtain sa sb cb sc where
    a: "ReadFlags s = Inr sa" and b: "ReadWidth sa = Inr sb" and cb: "peek sb 0 = Inr cb"
    and c: "(if cb = CHR ''.'' then ReadPrecision sb else Inr sb) = Inr sc"
    and d: "ReadModifiers sc = Inr s1"
    by (auto simp: ReadLeaders_def thenF_eq_Inr)
  obtain ca where ca: "peek sa 0 = Inr ca"
    using b by (auto simp: ReadWidth_def ParseDecimalUInt_def thenF_eq_Inr)
  have not_star: "ca \<noteq> CHR ''*''"
  proof
    assume star: "ca = CHR ''*''"
    then have "sb = sa"
      using b ca by (auto simp: ReadWidth_def ParseDecimalUInt_def isdigit_def)
    then have "sc = sa" using c ca cb star by auto
    then have "s1 = sa" using d ca star by (auto simp: ReadModifiers_def)
    then show False using assms(3,6) ca star by simp
  qed
  show ?thesis
  proof (cases "cb = CHR ''.''")
    case False
    then have "sc = sb" using c by simp
    then show ?thesis
      using assms(1,3-5) a b ca cb d False not_star
      by (simp add: op_ulong_def op_ulong_render_unknown)
  next
    case True
    then have p: "ReadPrecision sb = Inr sc" using c by simp
    then obtain c1 where c1: "peek sb 1 = Inr c1"
      using cb True
      by (auto simp: ReadPrecision_def ParseDecimalUInt_def thenF_eq_Inr)
    have "c1 \<noteq> CHR ''*''"
    proof
      assume star: "c1 = CHR ''*''"
      then have s0: "peek (skip 1 sb) 0 = Inr CHR ''*''"
        using c1 by simp
      then have "sc = skip 1 sb"
        using p cb True by (auto simp: ReadPrecision_def ParseDecimalUInt_def isdigit_def)
      then have "s1 = skip 1 sb" using d s0 by (auto simp: ReadModifiers_def)
      then show False using assms(3,6) s0 by simp
    qed
    then show ?thesis
      using assms(1,3-5) a b ca cb d True not_star c1 p
      by (simp add: op_ulong_def op_ulong_render_unknown)
  qed
qed

lemma write_dev_emitted:
  "wf_device d \<Longrightarrow> write_dev d xs = Inr d' \<Longrightarrow> wf_device d' \<and> emitted d' = emitted d @ xs"
  by (cases d) (auto split: if_splits)

lemma take_prefix_length: "take (length e0) em = e0 \<Longrightarrow> length e0 \<le> length em"
  by (metis length_take min.cobounded1 min.commute)

lemma Write_result_counts:
  assumes "result_counts e0 s" "Write xs s = Inr s'"
  shows "result_counts e0 s'"
proof (cases "result s < 0")
  case True
  then show ?thesis using assms by (simp add: Write_def)
next
  case False
  then obtain d where d: "write_dev (device s) xs = Inr d"
    and s': "s' = s\<lparr>device := d, result := result s + int (length xs)\<rparr>"
    using assms(2) by (auto simp: Write_def thenF_eq_Inr split: if_splits)
  have wf: "wf_device (device s)" and pre: "take (length e0) (emitted (device s)) = e0"
    and r: "result s = int (length (emitted_since e0 s))"
    using assms(1) False by (auto simp: result_counts_def)
  have em: "wf_device d" "emitted d = emitted (device s) @ xs"
    using write_dev_emitted [OF wf d] by simp_all
  have le: "length e0 \<le> length (emitted (device s))"
    using pre by (rule take_prefix_length)
  show ?thesis
    using em pre r le by (simp add: result_counts_def s' emitted_since_def)
qed

lemma Fill_result_counts:
  "result_counts e0 s \<Longrightarrow> Fill c n s = Inr s' \<Longrightarrow> result_counts e0 s'"
proof (induction c n s rule: Fill.induct)
  case (1 c n s)
  show ?case using "1.prems" "1.IH"
    by (subst (asm) Fill.simps)
       (auto simp: thenF_eq_Inr split: if_splits dest: Write_result_counts)
qed

lemma same_output_result_counts:
  "same_output s s' \<Longrightarrow> result_counts e0 s \<Longrightarrow> result_counts e0 s'"
  by (simp add: same_output_def result_counts_def emitted_since_def)

lemma result_counts_failed [simp]:
  "result_counts e0 (s\<lparr>result := - 1\<rparr>) = (wf_device (device s) \<and> take (length e0) (emitted (device s)) = e0)"
  by (auto simp add: result_counts_def emitted_since_def)

lemma result_counts_skip [simp]: "result_counts e0 (skip k s) = result_counts e0 s"
  by (simp add: result_counts_def emitted_since_def skip_def)

lemma ResetAll_same_output: "ResetAll s = Inr s' \<Longrightarrow> same_output s s'"
  by (auto simp: ResetAll_def same_output_def split: if_splits)

lemma Advance_loop_result_counts:
  "result_counts e0 s \<Longrightarrow> Advance_loop b s = Inr s' \<Longrightarrow> result_counts e0 s'"
proof (induction b s arbitrary: s' rule: Advance_loop.induct)
  case (1 b s)
  from "1.prems"(2) obtain c where c: "peek s 0 = Inr c"
    by (subst (asm) Advance_loop.simps) (auto simp: thenF_eq_Inr)
  show ?case
  proof (cases "c = CHR ''%''")
    case True
    from "1.prems"(2) c True obtain c1 where c1: "peek s 1 = Inr c1"
      by (subst (asm) Advance_loop.simps) (auto simp: thenF_eq_Inr)
    show ?thesis
    proof (cases "c1 = CHR ''%''")
      case False
      from "1.prems"(2) c True c1 False obtain s1
        where "Write (fmt_range s b (format s)) s = Inr s1" "s' = skip 1 s1"
        by (subst (asm) Advance_loop.simps) (auto simp: thenF_eq_Inr)
      then show ?thesis
        using Write_result_counts [OF "1.prems"(1)] by simp
    next
      case pp: True
      from "1.prems"(2) c True c1 pp obtain s1
        where w: "Write (fmt_range s b (format s + 1)) s = Inr s1"
          and r: "Advance_loop (format s1 + 2) (skip 2 s1) = Inr s'"
        by (subst (asm) Advance_loop.simps) (auto simp: thenF_eq_Inr)
      have "result_counts e0 (skip 2 s1)"
        using Write_result_counts [OF "1.prems"(1) w] by simp
      then show ?thesis
        using "1.IH"(1) [OF c True c1 _ w _ r] pp by simp
    qed
  next
    case False
    show ?thesis
    proof (cases "c = NUL")
      case True
      from "1.prems"(2) c False True have "Write (fmt_range s b (format s)) s = Inr s'"
        by (subst (asm) Advance_loop.simps) (auto simp: thenF_eq_Inr)
      then show ?thesis
        using Write_result_counts [OF "1.prems"(1)] by simp
    next
      case nz: False
      from "1.prems"(2) c False nz have r: "Advance_loop b (skip 1 s) = Inr s'"
        by (subst (asm) Advance_loop.simps) (auto simp: thenF_eq_Inr)
      show ?thesis
        using "1.IH"(2) [OF c False nz _ r] "1.prems"(1) by simp
    qed
  qed
qed

lemma Advance_result_counts:
  "result_counts e0 s \<Longrightarrow> Advance s = Inr s' \<Longrightarrow> result_counts e0 s'"
  by (auto simp: Advance_def thenF_eq_Inr
      dest!: ResetAll_same_output dest: same_output_result_counts Advance_loop_result_counts)

lemma Next_result_counts:
  "result_counts e0 s \<Longrightarrow> Next s = Inr s' \<Longrightarrow> result_counts e0 s'"
  using Advance_result_counts [of e0 "skip 1 s" s'] by (simp add: Next_def)


lemma print_field_result_counts:
  assumes "result_counts e0 s"
    and "print_field pl sc cb fc cz ds pr s = Inr s'"
  shows "result_counts e0 s'"
proof -
  from assms(2) obtain s1 s2 s3 s4 s5 s6 s7 where
    1: "Fill CHR '' '' pl s = Inr s1"
    and 2: "(if sc \<noteq> NUL then Write [sc] s1 else Inr s1) = Inr s2"
    and 3: "(if cb > 0 then Fill CHR ''0'' 1 s2 else Inr s2) = Inr s3"
    and 4: "(if cb = 2 then Fill fc 1 s3 else Inr s3) = Inr s4"
    and 5: "Fill CHR ''0'' cz s4 = Inr s5"
    and 6: "Write ds s5 = Inr s6"
    and 7: "Fill CHR '' '' pr s6 = Inr s7"
    and 8: "Next s7 = Inr s'"
    unfolding print_field_def thenF_eq_Inr by blast
  have "result_counts e0 s1" using Fill_result_counts [OF assms(1) 1] .
  then have "result_counts e0 s2" using 2 Write_result_counts by (auto split: if_splits)
  then have "result_counts e0 s3" using 3 Fill_result_counts by (auto split: if_splits)
  then have "result_counts e0 s4" using 4 Fill_result_counts by (auto split: if_splits)
  then have "result_counts e0 s5" using 5 Fill_result_counts by blast
  then have "result_counts e0 s6" using 6 Write_result_counts by blast
  then have "result_counts e0 s7" using 7 Fill_result_counts by blast
  then show ?thesis using 8 Next_result_counts by blast
qed

lemma result_counts_flags [simp]:
  "result_counts e0 (SetAlternateForm s) = result_counts e0 s"
  "result_counts e0 (ResetFillZeros s) = result_counts e0 s"
  by (simp_all add: result_counts_def emitted_since_def SetAlternateForm_def ResetFillZeros_def)

lemma result_counts_wf:
  "result_counts e0 s \<Longrightarrow> wf_device (device s) \<and> take (length e0) (emitted (device s)) = e0"
  by (simp add: result_counts_def)

lemma FormatWithCurrentFlags_result_counts:
  assumes "result_counts e0 s"
    and "FormatWithCurrentFlags i s = Inr s'"
  shows "result_counts e0 s'"
proof -
  from assms(2) obtain c where c: "peek s 0 = Inr c"
    by (auto simp: FormatWithCurrentFlags_def thenF_eq_Inr)
  show ?thesis
  proof (cases "strchr ''cdiuoxX'' (if c = CHR ''p'' then CHR ''x'' else c)")
    case False
    then have "s' = (if c = CHR ''p'' then SetAlternateForm s else s)\<lparr>result := - 1\<rparr>"
      using assms(2) c by (simp add: FormatWithCurrentFlags_def Let_def)
    then show ?thesis
      using result_counts_wf [OF assms(1)] by (simp add: SetAlternateForm_def)
  next
    case True
    then obtain pl sc cb fc cz ds pr s1 where
      "print_field pl sc cb fc cz ds pr s1 = Inr s'" and "result_counts e0 s1"
      using assms c
      by (simp add: FormatWithCurrentFlags_def Let_def split: option.splits prod.splits)
    then show ?thesis by (rule print_field_result_counts [rotated])
  qed
qed

lemma op_ulong_render_result_counts:
  assumes "result_counts e0 s" and "op_ulong_render i s = Inr s'"
  shows "result_counts e0 s'"
proof -
  from assms(2) obtain s4 i' where "ReadModifiers s = Inr s4"
    and "FormatWithCurrentFlags i' s4 = Inr s'"
    by (auto simp: op_ulong_render_def thenF_eq_Inr Let_def)
  then show ?thesis
    using assms(1) ReadModifiers_same_output same_output_result_counts
      FormatWithCurrentFlags_result_counts by blast
qed

lemma op_ulong_result_counts:
  assumes "result_counts e0 s" and "op_ulong i s = Inr s'"
  shows "result_counts e0 s'"
proof (cases "result s = - 1")
  case True
  then show ?thesis using assms by (simp add: op_ulong_def)
next
  case False
  then obtain s1 c where s1: "ReadFlags s = Inr s1" and c: "peek s1 0 = Inr c"
    using assms(2) by (auto simp: op_ulong_def thenF_eq_Inr)
  have r1: "result_counts e0 s1"
    using ReadFlags_same_output [OF s1] assms(1) by (rule same_output_result_counts)
  show ?thesis
  proof (cases "c = CHR ''*''")
    case True
    then have "s' = skip 1 (SetWidth i s1)"
      using assms(2) False s1 c by (simp add: op_ulong_def)
    then show ?thesis
      using r1 by (simp add: SetWidth_def skip_def result_counts_def emitted_since_def)
  next
    case ns: False
    then obtain s2 c2 where s2: "ReadWidth s1 = Inr s2" and c2: "peek s2 0 = Inr c2"
      using assms(2) False s1 c by (auto simp: op_ulong_def thenF_eq_Inr)
    have r2: "result_counts e0 s2"
      using ReadWidth_same_output [OF s2] r1 by (rule same_output_result_counts)
    show ?thesis
    proof (cases "c2 = CHR ''.''")
      case nd: False
      then have "op_ulong_render i s2 = Inr s'"
        using assms(2) False s1 c ns s2 c2 by (simp add: op_ulong_def)
      then show ?thesis using r2 op_ulong_render_result_counts by blast
    next
      case True
      then obtain c3 where c3: "peek s2 1 = Inr c3"
        using assms(2) False s1 c ns s2 c2 by (auto simp: op_ulong_def thenF_eq_Inr)
      show ?thesis
      proof (cases "c3 = CHR ''*''")
        case True
        then have "s' = skip 2 (SetPrec i s2)"
          using assms(2) False s1 c ns s2 c2 c3 \<open>c2 = CHR ''.''\<close> by (simp add: op_ulong_def)
        then show ?thesis
          using r2 by (simp add: SetPrec_def skip_def result_counts_def emitted_since_def)
      next
        case nstar: False
        then obtain s3 where s3: "ReadPrecision s2 = Inr s3" and "op_ulong_render i s3 = Inr s'"
          using assms(2) False s1 c ns s2 c2 c3 \<open>c2 = CHR ''.''\<close>
          by (auto simp: op_ulong_def thenF_eq_Inr)
        then show ?thesis
          using r2 ReadPrecision_same_output same_output_result_counts
            op_ulong_render_result_counts by blast
      qed
    qed
  qed
qed

lemma StoreCountHelper_result_counts:
  assumes "result_counts e0 s" and "StoreCountHelper conv pi s = Inr (s', st)"
  shows "result_counts e0 s'"
proof (cases "result s = - 1")
  case True
  then show ?thesis using assms by (simp add: StoreCountHelper_def)
next
  case False
  then obtain s1 c where s1: "ReadLeaders s = Inr s1" and c: "peek s1 0 = Inr c"
    using assms(2) by (auto simp: StoreCountHelper_def thenF_eq_Inr)
  have r1: "result_counts e0 s1"
    using ReadLeaders_same_output [OF s1] assms(1) by (rule same_output_result_counts)
  consider "c = CHR ''p''" | "c \<noteq> CHR ''p''" "c \<noteq> CHR ''n''" | "c = CHR ''n''" by blast
  then show ?thesis
  proof cases
    case 1
    then have "FormatWithCurrentFlags pi s1 = Inr s'"
      using assms(2) False s1 c by (auto simp: StoreCountHelper_def thenF_eq_Inr)
    then show ?thesis using r1 FormatWithCurrentFlags_result_counts by blast
  next
    case 2
    then have "s' = s1\<lparr>result := - 1\<rparr>"
      using assms(2) False s1 c by (simp add: StoreCountHelper_def)
    then show ?thesis using result_counts_wf [OF r1] by simp
  next
    case 3
    then have "Next s1 = Inr s'"
      using assms(2) False s1 c
      by (auto simp: StoreCountHelper_def thenF_eq_Inr split: if_splits)
    then show ?thesis using r1 Next_result_counts by blast
  qed
qed

lemma op_cstr_result_counts:
  assumes "result_counts e0 s" and "op_cstr p str s = Inr s'"
  shows "result_counts e0 s'"
proof (cases "result s = - 1")
  case True
  then show ?thesis using assms by (simp add: op_cstr_def)
next
  case False
  then obtain s1 c where s1: "ReadLeaders s = Inr s1" and c: "peek s1 0 = Inr c"
    using assms(2) by (auto simp: op_cstr_def thenF_eq_Inr)
  have r1: "result_counts e0 s1"
    using ReadLeaders_same_output [OF s1] assms(1) by (rule same_output_result_counts)
  consider "c = CHR ''p''" | "c \<noteq> CHR ''p''" "c \<noteq> CHR ''s''" | "c = CHR ''s''" by blast
  then show ?thesis
  proof cases
    case 1
    then have "FormatWithCurrentFlags p s1 = Inr s'"
      using assms(2) False s1 c by (simp add: op_cstr_def)
    then show ?thesis using r1 FormatWithCurrentFlags_result_counts by blast
  next
    case 2
    then have "s' = s1\<lparr>result := - 1\<rparr>"
      using assms(2) False s1 c by (simp add: op_cstr_def)
    then show ?thesis using result_counts_wf [OF r1] by simp
  next
    case 3
    define len where "len = min (strlen str) (prec s1)"
    define body where "body =
      (if width s1 > len then
         (if LeftJustify s1 then
            thenF (Write (take (unat len) str) s1) (\<lambda>s. Fill CHR '' '' (width s - len) s)
          else
            thenF (Fill CHR '' '' (width s1 - len) s1) (\<lambda>s. Write (take (unat len) str) s))
       else Write (take (unat len) str) s1)"
    have "op_cstr p str s = thenF body Next"
      using False s1 c 3 by (simp add: op_cstr_def Let_def body_def len_def)
    then have "thenF body Next = Inr s'"
      using assms(2) by simp
    then obtain s2 where w: "body = Inr s2" and n: "Next s2 = Inr s'"
      unfolding thenF_eq_Inr by blast
    have "result_counts e0 s2"
    proof (cases "width s1 > len")
      case False
      then have "Write (take (unat len) str) s1 = Inr s2" using w by (simp add: body_def)
      then show ?thesis using r1 Write_result_counts by blast
    next
      case True
      show ?thesis
      proof (cases "LeftJustify s1")
        case True
        then obtain sa where "Write (take (unat len) str) s1 = Inr sa"
          and "Fill CHR '' '' (width sa - len) sa = Inr s2"
          using w \<open>width s1 > len\<close> by (auto simp: body_def thenF_eq_Inr)
        then show ?thesis using r1 Write_result_counts Fill_result_counts by blast
      next
        case False
        then obtain sa where "Fill CHR '' '' (width s1 - len) s1 = Inr sa"
          and "Write (take (unat len) str) sa = Inr s2"
          using w \<open>width s1 > len\<close> by (auto simp: body_def thenF_eq_Inr)
        then show ?thesis using r1 Write_result_counts Fill_result_counts by blast
      qed
    qed
    then show ?thesis using n Next_result_counts by blast
  qed
qed

lemma PrintFloatingPoint_sprintf_result_counts:
  assumes "result_counts e0 s" and "PrintFloatingPoint_sprintf f fmtp s = Inr s'"
  shows "result_counts e0 s'"
proof -
  have r2: "result_counts e0 (skip 1 s)" using assms(1) by simp
  obtain stored resultBuf where
    sn: "f (fmt_range (skip 1 s) fmtp (format (skip 1 s))) = (stored, resultBuf)"
    by (cases "f (fmt_range (skip 1 s) fmtp (format (skip 1 s)))")
  have eq: "PrintFloatingPoint_sprintf f fmtp s =
      (if format (skip 1 s) \<ge> fmtp + 128 then Inr ((skip 1 s)\<lparr>result := - 1\<rparr>)
       else if stored < 0 then Inr ((skip 1 s)\<lparr>result := - 1\<rparr>)
       else thenF (Write (takeWhile (\<lambda>c. c \<noteq> NUL) resultBuf) (skip 1 s)) Advance)"
    using sn by (simp add: PrintFloatingPoint_sprintf_def Let_def)
  consider "s' = (skip 1 s)\<lparr>result := - 1\<rparr>"
    | "thenF (Write (takeWhile (\<lambda>c. c \<noteq> NUL) resultBuf) (skip 1 s)) Advance = Inr s'"
    using assms(2) unfolding eq by (auto split: if_splits)
  then show ?thesis
  proof cases
    case 1
    then show ?thesis using result_counts_wf [OF r2] by simp
  next
    case 2
    then obtain s2 where "Write (takeWhile (\<lambda>c. c \<noteq> NUL) resultBuf) (skip 1 s) = Inr s2"
      and "Advance s2 = Inr s'"
      unfolding thenF_eq_Inr by blast
    then show ?thesis
      using r2 Write_result_counts Advance_result_counts by blast
  qed
qed

lemma PrintFloatingPoint_result_counts:
  assumes "result_counts e0 s" and "PrintFloatingPoint f s = Inr s'"
  shows "result_counts e0 s'"
proof -
  have nz: "format s \<noteq> 0"
    using assms(2) by (auto simp: PrintFloatingPoint_def split: if_splits)
  from assms(2) nz obtain s1 c where pc: "char_at s (format s - 1) = Inr CHR ''%''"
    and s1: "ReadLeaders s = Inr s1" and c: "peek s1 0 = Inr c"
    by (auto simp: PrintFloatingPoint_def thenF_eq_Inr split: if_splits)
  have r1: "result_counts e0 s1"
    using ReadLeaders_same_output [OF s1] assms(1) by (rule same_output_result_counts)
  show ?thesis
  proof (cases "strchr ''eEfgG'' c")
    case False
    then have "s' = s1\<lparr>result := - 1\<rparr>"
      using assms(2) nz pc s1 c by (simp add: PrintFloatingPoint_def)
    then show ?thesis using result_counts_wf [OF r1] by simp
  next
    case True
    then have "PrintFloatingPoint_sprintf f (format s - 1) s1 = Inr s'"
      using assms(2) nz pc s1 c by (simp add: PrintFloatingPoint_def)
    then show ?thesis using r1 PrintFloatingPoint_sprintf_result_counts by blast
  qed
qed

lemma no_store_eq_Inr: "no_store r = Inr (s', st) \<longleftrightarrow> r = Inr s' \<and> st = None"
  by (cases r) (auto simp: no_store_def)

lemma op_double_result_counts:
  "result_counts e0 s \<Longrightarrow> op_double f s = Inr s' \<Longrightarrow> result_counts e0 s'"
  "result_counts e0 s \<Longrightarrow> op_long_double f s = Inr s' \<Longrightarrow> result_counts e0 s'"
  using PrintFloatingPoint_result_counts
  by (auto simp: op_double_def op_long_double_def split: if_splits)

lemma operator_call_result_counts:
  assumes "result_counts e0 s" and "operator_call a s = Inr (s', st)"
  shows "result_counts e0 s'"
proof (cases a)
  case (ADouble f)
  then show ?thesis
    using assms by (auto simp: no_store_eq_Inr dest: op_double_result_counts(1))
next
  case (ALongDouble f)
  then show ?thesis
    using assms by (auto simp: no_store_eq_Inr dest: op_double_result_counts(2))
next
  case (AIntPtr p)
  then show ?thesis
    using assms by (auto simp: op_int_ptr_def dest: StoreCountHelper_result_counts)
next
  case (AShortPtr p)
  then show ?thesis
    using assms by (auto simp: op_short_ptr_def dest: StoreCountHelper_result_counts)
next
  case (ALongPtr p)
  then show ?thesis
    using assms by (auto simp: op_long_ptr_def dest: StoreCountHelper_result_counts)
next
  case (ACStr p str)
  then show ?thesis
    using assms by (auto simp: no_store_eq_Inr dest: op_cstr_result_counts)
qed (use assms in
      \<open>auto simp: no_store_eq_Inr op_bool_def op_char_def op_schar_def op_uchar_def
        op_short_def op_ushort_def op_int_def op_unsigned_def op_long_def op_voidp_def
        dest: op_ulong_result_counts\<close>)

lemma operator_calls_result_counts:
  "result_counts e0 s \<Longrightarrow> operator_calls args s = Inr (s', sts) \<Longrightarrow> result_counts e0 s'"
proof (induction args arbitrary: s s' sts)
  case Nil
  then show ?case by simp
next
  case (Cons a args)
  from Cons.prems(2) obtain s1 st sts' where "operator_call a s = Inr (s1, st)"
    and "operator_calls args s1 = Inr (s', sts')"
    by (auto simp: thenF_eq_Inr)
  then show ?case
    using Cons.IH Cons.prems(1) operator_call_result_counts by blast
qed

lemma PrintfState_ctor_result_counts:
  assumes "wf_device dev" and "PrintfState_ctor dev f = Inr s"
  shows "result_counts (emitted dev) s"
proof -
  have "result_counts (emitted dev)
     \<lparr>device = dev, fmt = f, format = 0, width = 0, prec = 0, flags = 0, result = 0\<rparr>"
    using assms(1) by (simp add: result_counts_def emitted_since_def)
  then show ?thesis
    using assms(2) Advance_result_counts unfolding PrintfState_ctor_def by blast
qed

lemma write_dev_unbounded: "unbounded d \<Longrightarrow> write_dev d xs = Inr (append_dev d xs)"
  by (cases d) simp_all

lemma unbounded_append_dev [simp]: "unbounded (append_dev d xs) = unbounded d"
  by (cases d) simp_all

lemma append_dev_append [simp]: "append_dev (append_dev d xs) ys = append_dev d (xs @ ys)"
  by (cases d) simp_all

lemma append_dev_Nil [simp]: "append_dev d [] = d"
  by (cases d) simp_all

lemma emitted_append_dev: "unbounded d \<Longrightarrow> emitted (append_dev d xs) = emitted d @ xs"
  by (cases d) simp_all

lemma Write_emit: "room (length xs) s \<Longrightarrow> Write xs s = Inr (emit xs s)"
  by (simp add: Write_def room_def emit_def write_dev_unbounded)

lemma emit_emit [simp]: "emit ys (emit xs s) = emit (xs @ ys) s"
  by (simp add: emit_def)

lemma emit_Nil [simp]: "emit [] s = s"
  by (simp add: emit_def)

lemma room_emit: "room (length xs + n) s \<Longrightarrow> room n (emit xs s)"
  by (simp add: room_def emit_def)

lemma room_mono: "room n s \<Longrightarrow> m \<le> n \<Longrightarrow> room m s"
  by (simp add: room_def)

lemma emit_fields [simp]:
  "fmt (emit xs s) = fmt s" "format (emit xs s) = format s" "width (emit xs s) = width s"
  "prec (emit xs s) = prec s" "flags (emit xs s) = flags s"
  "result (emit xs s) = result s + int (length xs)"
  "device (emit xs s) = append_dev (device s) xs"
  by (simp_all add: emit_def)

lemma Fill_emit: "room (unat n) s \<Longrightarrow> Fill c n s = Inr (emit (replicate (unat n) c) s)"
proof (induction c n s rule: Fill.induct)
  case (1 c n s)
  show ?case
  proof (cases "n = 0")
    case True
    then show ?thesis by (subst Fill.simps) simp
  next
    case False
    then have n: "unat n = Suc (unat (n - 1))"
      by (metis Suc_pred' measure_unat unat_gt_0 less_Suc_eq_le not_less_eq_eq le_antisym unat_minus_one)
    have "room (length [c]) s"
      using room_mono [OF "1.prems", of 1] n by simp
    then have w: "Write [c] s = Inr (emit [c] s)"
      by (rule Write_emit)
    have r: "room (unat (n - 1)) (emit [c] s)"
      using "1.prems" n by (intro room_emit) simp
    have "0 < n" using False by (simp add: word_greater_zero_iff)
    from "1.IH" [OF this w r] show ?thesis
      using False w n
      by (subst Fill.simps) (simp add: word_greater_zero_iff)
  qed
qed

lemma peek_drop:
  "format s \<le> length (fmt s) \<Longrightarrow>
     peek s 0 = Inr (case drop (format s) (fmt s) of [] \<Rightarrow> NUL | c # cs \<Rightarrow> c)"
  by (auto simp: peek_def char_at_def Cons_nth_drop_Suc [symmetric])

lemma peek1_drop:
  "format s < length (fmt s) \<Longrightarrow>
     peek s 1 = Inr (case drop (Suc (format s)) (fmt s) of [] \<Rightarrow> NUL | c # cs \<Rightarrow> c)"
  by (auto simp: peek_def char_at_def Cons_nth_drop_Suc [symmetric])

lemma fmt_range_Suc:
  "b \<le> e \<Longrightarrow> e < length (fmt s) \<Longrightarrow> fmt_range s b (Suc e) = fmt_range s b e @ [fmt s ! e]"
  by (simp add: fmt_range_def Suc_diff_le take_Suc_conv_app_nth)

lemma fmt_range_empty [simp]: "fmt_range s b b = []"
  by (simp add: fmt_range_def)

lemma fmt_range_fields [simp]:
  "fmt_range (skip k s) b e = fmt_range s b e"
  "fmt_range (emit xs s) b e = fmt_range s b e"
  by (simp_all add: fmt_range_def skip_def)

lemma skip_skip [simp]: "skip a (skip b s) = skip (a + b) s"
  by (simp add: skip_def add.commute)

lemma skip_0 [simp]: "skip 0 s = s"
  by (simp add: skip_def)

lemma emit_skip [simp]: "emit xs (skip k s) = skip k (emit xs s)"
  by (simp add: emit_def skip_def)

lemma skip_fields [simp]:
  "fmt (skip k s) = fmt s" "format (skip k s) = format s + k" "device (skip k s) = device s"
  "result (skip k s) = result s"
  by (simp_all add: skip_def)

lemma room_skip [simp]: "room n (skip k s) = room n s"
  by (simp add: room_def)

lemma Advance_loop_literal:
  assumes "b \<le> format s" and "format s \<le> length (fmt s)"
    and "room (length (fmt_range s b (format s)) + length (literal_text (drop (format s) (fmt s)))) s"
  shows "Advance_loop b s =
     Inr (skip (literal_skip (drop (format s) (fmt s)))
           (emit (fmt_range s b (format s) @ literal_text (drop (format s) (fmt s))) s))"
  using assms
proof (induction b s rule: Advance_loop.induct)
  case (1 b s)
  let ?pending = "fmt_range s b (format s)"
  show ?case
  proof (cases "drop (format s) (fmt s)")
    case Nil
    then have p: "peek s 0 = Inr NUL"
      using peek_drop [OF "1.prems"(2)] by simp
    have "Write ?pending s = Inr (emit ?pending s)"
      using "1.prems"(3) Nil by (intro Write_emit) simp
    then show ?thesis
      using p Nil by (subst Advance_loop.simps) (simp add: NUL_def skip_def)
  next
    case (Cons c cs)
    then have p: "peek s 0 = Inr c"
      using peek_drop [OF "1.prems"(2)] by simp
    have lt: "format s < length (fmt s)"
      using Cons "1.prems"(2) by (cases "format s = length (fmt s)") auto
    have c: "c = fmt s ! format s" and cs: "cs = drop (Suc (format s)) (fmt s)"
      using Cons lt by (simp_all add: Cons_nth_drop_Suc [symmetric])
    show ?thesis
    proof (cases "c = CHR ''%''")
      case True
      define c1 where "c1 = (case cs of [] \<Rightarrow> NUL | d # ds \<Rightarrow> d)"
      have p1: "peek s 1 = Inr c1"
        using peek1_drop [OF lt] cs by (simp add: c1_def)
      show ?thesis
      proof (cases "c1 = CHR ''%''")
        case False
        have "room (length ?pending) s"
          using "1.prems"(3) by (rule room_mono) simp
        then have "Write ?pending s = Inr (emit ?pending s)"
          by (rule Write_emit)
        moreover have "literal_text (c # cs) = []" "literal_skip (c # cs) = 1"
          using True False by (auto simp: c1_def split: list.splits)
        ultimately show ?thesis
          using p p1 True False Cons by (subst Advance_loop.simps) simp
      next
        case pp: True
        then obtain ds where ds: "cs = CHR ''%'' # ds"
          by (cases cs) (auto simp: c1_def NUL_def)
        have lt2: "Suc (format s) < length (fmt s)"
          using cs ds by (cases "Suc (format s) < length (fmt s)") auto
        have ds': "ds = drop (format s + 2) (fmt s)"
          using cs ds lt2 by (metis Cons_nth_drop_Suc add_2_eq_Suc' list.inject)
        have ltx: "literal_text (c # cs) = CHR ''%'' # literal_text ds"
          and sk: "literal_skip (c # cs) = 2 + literal_skip ds"
          using True ds by simp_all
        have r: "fmt_range s b (format s + 1) = ?pending @ [CHR ''%'']"
          using fmt_range_Suc [OF "1.prems"(1) lt] c True by simp
        have room0: "room (length ?pending + length (CHR ''%'' # literal_text ds)) s"
          using "1.prems"(3) unfolding Cons ltx .
        then have "room (length (?pending @ [CHR ''%''])) s"
          by (rule room_mono) simp
        then have w: "Write (fmt_range s b (format s + 1)) s = Inr (emit (?pending @ [CHR ''%'']) s)"
          unfolding r by (rule Write_emit)
        have "room (length (?pending @ [CHR ''%'']) + length (literal_text ds)) s"
          using room0 by simp
        then have "room (length (literal_text ds)) (emit (?pending @ [CHR ''%'']) s)"
          by (rule room_emit)
        then have room': "room (length (fmt_range (skip 2 (emit (?pending @ [CHR ''%'']) s))
                (format (emit (?pending @ [CHR ''%'']) s) + 2)
                (format (skip 2 (emit (?pending @ [CHR ''%'']) s)))) +
              length (literal_text (drop (format (skip 2 (emit (?pending @ [CHR ''%'']) s)))
                (fmt (skip 2 (emit (?pending @ [CHR ''%'']) s)))))) (skip 2 (emit (?pending @ [CHR ''%'']) s))"
          using ds' by simp
        have "Advance_loop (format (emit (?pending @ [CHR ''%'']) s) + 2)
                (skip 2 (emit (?pending @ [CHR ''%'']) s)) =
              Inr (skip (literal_skip ds) (emit (literal_text ds) (skip 2 (emit (?pending @ [CHR ''%'']) s))))"
          using "1.IH"(1) [OF p True p1 _ w _ _ room'] pp lt2 ds'
          by simp
        then show ?thesis
          using p p1 True pp w Cons ltx sk
          by (subst Advance_loop.simps) (simp add: add.commute)
      qed
    next
      case False
      show ?thesis
      proof (cases "c = NUL")
        case True
        have "room (length ?pending) s"
          using "1.prems"(3) by (rule room_mono) simp
        then have "Write ?pending s = Inr (emit ?pending s)"
          by (rule Write_emit)
        then show ?thesis
          using p True False Cons by (subst Advance_loop.simps) simp
      next
        case nz: False
        have r: "fmt_range s b (Suc (format s)) = ?pending @ [c]"
          using fmt_range_Suc [OF "1.prems"(1) lt] c by simp
        have "Advance_loop b (skip 1 s) =
           Inr (skip (literal_skip cs) (emit ((?pending @ [c]) @ literal_text cs) (skip 1 s)))"
          using "1.IH"(2) [OF p False nz] "1.prems" lt cs r Cons False nz
          by simp
        then show ?thesis
          using p False nz Cons by (subst Advance_loop.simps) (simp add: add.commute)
      qed
    qed
  qed
qed


lemma Advance_literal:
  assumes "format s \<le> length (fmt s)"
    and "room (length (literal_text (drop (format s) (fmt s)))) s"
  shows "Advance s =
     Inr (skip (literal_skip (drop (format s) (fmt s)))
           (emit (literal_text (drop (format s) (fmt s)))
              (s\<lparr>width := 0, prec := - 1, flags := 0\<rparr>)))"
proof -
  let ?s = "s\<lparr>width := 0, prec := - 1, flags := 0\<rparr>"
  have "result s \<noteq> - 1" using assms(2) by (auto simp: room_def)
  then have 1: "ResetAll s = Inr ?s" by (simp add: ResetAll_def)
  have "room (length (fmt_range ?s (format ?s) (format ?s))
          + length (literal_text (drop (format ?s) (fmt ?s)))) ?s"
    using assms(2) by (simp add: room_def)
  from Advance_loop_literal [OF _ _ this] assms(1) 1 show ?thesis
    by (simp add: Advance_def)
qed

lemma literal_plain:
  "CHR ''%'' \<notin> set seg \<Longrightarrow> NUL \<notin> set seg \<Longrightarrow>
     literal_text (seg @ xs) = seg @ literal_text xs \<and>
     literal_skip (seg @ xs) = length seg + literal_skip xs"
  by (induction seg) auto

lemma literal_segments:
  assumes "\<forall>seg \<in> set segs. seg = ''%%'' \<or> (CHR ''%'' \<notin> set seg \<and> NUL \<notin> set seg)"
    and "rest \<noteq> [] \<longrightarrow> hd rest = CHR ''%'' \<and> (tl rest \<noteq> [] \<longrightarrow> hd (tl rest) \<noteq> CHR ''%'')"
  shows "literal_text (concat segs @ rest)
           = concat (map (\<lambda>seg. if seg = ''%%'' then ''%'' else seg) segs)
       \<and> literal_skip (concat segs @ rest)
           = length (concat segs) + (if rest = [] then 0 else 1)"
  using assms(1)
proof (induction segs)
  case Nil
  show ?case
  proof (cases rest)
    case Nil
    then show ?thesis by simp
  next
    case (Cons c r)
    then show ?thesis using assms(2) by (cases r) auto
  qed
next
  case (Cons seg segs)
  then have IH: "literal_text (concat segs @ rest)
           = concat (map (\<lambda>seg. if seg = ''%%'' then ''%'' else seg) segs)"
     "literal_skip (concat segs @ rest) = length (concat segs) + (if rest = [] then 0 else 1)"
    by simp_all
  show ?case
  proof (cases "seg = ''%%''")
    case True
    then show ?thesis using IH by simp
  next
    case False
    then have "CHR ''%'' \<notin> set seg" "NUL \<notin> set seg"
      using Cons.prems by auto
    from literal_plain [OF this, of "concat segs @ rest"] show ?thesis
      using IH False by simp
  qed
qed

lemma strlen_plain:
  "NUL \<notin> set str \<Longrightarrow> length str < 2 ^ 32 \<Longrightarrow> unat (strlen str) = length str"
proof -
  assume a: "NUL \<notin> set str" and b: "length str < 2 ^ 32"
  have tw: "takeWhile (\<lambda>c. c \<noteq> NUL) str = str"
    using a by (auto simp: takeWhile_eq_all_conv)
  show ?thesis
    unfolding strlen_def tw using b by (simp add: unat_of_nat)
qed

lemma unat_min: "unat (min a b) = min (unat a) (unat b)"
  by (simp add: min_def word_le_nat_alt)

lemma digit_char_digit_of:
  "unat d < 256 \<Longrightarrow> digit_char d uppercase = digit_of uppercase (unat d)"
  by (simp add: digit_char_def digit_of_def Let_def)

lemma RenderWithoutSign_ulong_digits:
  assumes "2 \<le> unat base" "unat base \<le> 256"
  shows "RenderWithoutSign_ulong n acc base uppercase
           = Some (digits_of (unat base) uppercase (unat n) @ acc)"
proof (induction "unat n" arbitrary: n acc rule: less_induct)
  case less
  have b0: "base \<noteq> 0" using assms(1) by auto
  have md: "n - n div base * base = n mod base"
    by (simp add: minus_div_mult_eq_mod)
  have um: "unat (n mod base) = unat n mod unat base"
    by (simp add: unat_mod)
  have ud: "unat (n div base) = unat n div unat base"
    by (simp add: unat_div)
  have lt: "unat (n mod base) < 256"
    unfolding um using assms by (metis less_le_trans mod_less_divisor not_numeral_le_zero not_le zero_less_iff_neq_zero le_zero_eq)
  have dc: "digit_char (n - n div base * base) uppercase = digit_of uppercase (unat n mod unat base)"
    unfolding md using digit_char_digit_of [OF lt] um by simp
  show ?case
  proof (cases "n div base = 0")
    case True
    then have "unat n < unat base"
      using ud assms(1) by (metis div_greater_zero_iff not_le unat_0 not_less_iff_gr_or_eq less_le_trans zero_less_numeral)
    then show ?thesis
      using True b0 dc
      by (subst RenderWithoutSign_ulong.simps, subst digits_of.simps) (simp add: Let_def)
  next
    case False
    then have ge: "\<not> unat n < unat base"
      using ud by (metis div_less unat_eq_zero)
    then have "unat (n div base) < unat n"
      unfolding ud using assms(1) by (intro div_less_dividend) auto
    from less [OF this] show ?thesis
      using False b0 dc ge assms(1) ud
      by (subst RenderWithoutSign_ulong.simps, subst digits_of.simps) (simp add: Let_def)
  qed
qed

lemma Write_then:
  "room (length xs + n) s \<Longrightarrow> thenF (Write xs s) k = k (emit xs s)"
  using room_mono [of "length xs + n" s "length xs"] by (simp add: Write_emit)

lemma Fill_then:
  "room (unat m + n) s \<Longrightarrow> thenF (Fill c m s) k = k (emit (replicate (unat m) c) s)"
  using room_mono [of "unat m + n" s "unat m"] by (simp add: Fill_emit)

lemma Fill_room:
  "room (unat m + n) s \<Longrightarrow> room n (emit (replicate (unat m) c) s)"
  using room_emit [of "replicate (unat m) c" n s] by simp

lemma print_field_emit:
  assumes "room (unat pl + (length sg + (length px + (unat cz + (length ds + unat pr))))) s"
    and sg: "sg = (if sc \<noteq> NUL then [sc] else [])"
    and px: "px = (if cb > 0 then ''0'' else []) @ (if cb = 2 then [fc] else [])"
  shows "print_field pl sc cb fc cz ds pr s =
     Next (emit (replicate (unat pl) CHR '' '' @ sg @ px @ replicate (unat cz) CHR ''0'' @ ds @
                   replicate (unat pr) CHR '' '') s)"
proof -
  define p1 where "p1 = (if cb > 0 then ''0'' else [])"
  define p2 where "p2 = (if cb = 2 then [fc] else [])"
  define s1 where "s1 = emit (replicate (unat pl) CHR '' '') s"
  define s2 where "s2 = emit sg s1"
  define s3 where "s3 = emit p1 s2"
  define s4 where "s4 = emit p2 s3"
  define s5 where "s5 = emit (replicate (unat cz) CHR ''0'') s4"
  define s6 where "s6 = emit ds s5"
  define s7 where "s7 = emit (replicate (unat pr) CHR '' '') s6"
  have u1: "unat (1 :: size_t) = 1" by simp
  have e1: "thenF (Fill CHR '' '' pl s) k = k s1" for k
    unfolding s1_def using assms(1) by (rule Fill_then)
  have r1: "room (length sg + (length px + (unat cz + (length ds + unat pr)))) s1"
    unfolding s1_def using assms(1) by (rule Fill_room)
  have e2: "thenF (if sc \<noteq> NUL then Write [sc] s1 else Inr s1) k = k s2" for k
  proof (cases "sc \<noteq> NUL")
    case True
    then show ?thesis using Write_then [OF r1, of k] sg by (simp add: s2_def)
  next
    case False
    then show ?thesis using sg by (simp add: s2_def)
  qed
  have lpx: "length px = length p1 + length p2"
    by (simp add: px p1_def p2_def)
  have r2: "room (length p1 + (length p2 + (unat cz + (length ds + unat pr)))) s2"
    unfolding s2_def using room_emit [OF r1] unfolding lpx by (simp only: add.assoc)
  have e3: "thenF (if cb > 0 then Fill CHR ''0'' 1 s2 else Inr s2) k = k s3" for k
  proof (cases "cb > 0")
    case True
    then have "room (unat (1 :: size_t) + (length p2 + (unat cz + (length ds + unat pr)))) s2"
      using r2 by (simp add: p1_def)
    from Fill_then [OF this, of "CHR ''0''" k] True show ?thesis
      by (simp add: s3_def p1_def)
  next
    case False
    then show ?thesis by (simp add: s3_def p1_def)
  qed
  have r3: "room (length p2 + (unat cz + (length ds + unat pr))) s3"
    unfolding s3_def using r2 by (rule room_emit)
  have e4: "thenF (if cb = 2 then Fill fc 1 s3 else Inr s3) k = k s4" for k
  proof (cases "cb = 2")
    case True
    then have "room (unat (1 :: size_t) + (unat cz + (length ds + unat pr))) s3"
      using r3 by (simp add: p2_def)
    from Fill_then [OF this, of fc k] True show ?thesis
      by (simp add: s4_def p2_def)
  next
    case False
    then show ?thesis by (simp add: s4_def p2_def)
  qed
  have r4: "room (unat cz + (length ds + unat pr)) s4"
    unfolding s4_def using r3 by (rule room_emit)
  have e5: "thenF (Fill CHR ''0'' cz s4) k = k s5" for k
    unfolding s5_def using r4 by (rule Fill_then)
  have r5: "room (length ds + unat pr) s5"
    unfolding s5_def using r4 by (rule Fill_room)
  have e6: "thenF (Write ds s5) k = k s6" for k
    unfolding s6_def using r5 by (rule Write_then)
  have r6: "room (unat pr + 0) s6"
    unfolding s6_def using room_emit [OF r5] by simp
  have e7: "thenF (Fill CHR '' '' pr s6) k = k s7" for k
    unfolding s7_def using r6 by (rule Fill_then)
  have "print_field pl sc cb fc cz ds pr s = Next s7"
    unfolding print_field_def e1 e2 e3 e4 e5 e6 e7 ..
  also have "s7 = emit (replicate (unat pl) CHR '' '' @ sg @ px @ replicate (unat cz) CHR ''0'' @
                   ds @ replicate (unat pr) CHR '' '') s"
    by (simp add: s7_def s6_def s5_def s4_def s3_def s2_def s1_def px p1_def p2_def)
  finally show ?thesis .
qed

lemma magnitude_unat:
  fixes i :: "32 word"
  shows "unat (if sint i < 0 then - i else i) = nat \<bar>sint i\<bar>"
proof (cases "sint i < 0")
  case True
  have ge: "- (2 ^ 31) \<le> sint i" using sint_ge [of i] by simp
  have "uint (- i) = (- uint i) mod 2 ^ 32"
    by (simp add: uint_word_ariths)
  also have "\<dots> = (- sint i - 2 ^ 32) mod 2 ^ 32"
    unfolding uint_of_negative [OF True] by (simp add: algebra_simps)
  also have "\<dots> = (- sint i) mod 2 ^ 32"
    using mod_diff_right_eq [of "- sint i" "2 ^ 32" "2 ^ 32 :: int"] by simp
  also have "\<dots> = - sint i"
    using True ge by (intro mod_pos_pos_trivial) simp_all
  finally have "uint (- i) = - sint i" .
  then show ?thesis using True by (simp add: unat_eq_nat_uint)
next
  case False
  have lt: "sint i < 2 ^ 31" using sint_lt [of i] by simp
  have "uint i = sint i mod 2 ^ 32"
    by (simp add: uint_sint take_bit_eq_mod)
  also have "\<dots> = sint i"
    using False lt by (intro mod_pos_pos_trivial) simp_all
  finally have "uint i = sint i" .
  then show ?thesis using False by (simp add: unat_eq_nat_uint)
qed

lemma LONG_MIN_word:
  fixes i :: "32 word"
  assumes "sint i = LONG_MIN"
  shows "i = 0x80000000"
proof -
  have "i = word_of_int (sint i)" by simp
  also have "\<dots> = 0x80000000" unfolding assms LONG_MIN_def by simp
  finally show ?thesis .
qed

lemma RenderWithoutSign_long_decimal:
  "RenderWithoutSign_long i [] 10 uppercase = Some (digits_of 10 uppercase (nat \<bar>sint i\<bar>))"
proof (cases "sint i = LONG_MIN")
  case False
  have "RenderWithoutSign_ulong (if sint i < 0 then - i else i) [] 10 uppercase
     = Some (digits_of (unat (10 :: 32 word)) uppercase (unat (if sint i < 0 then - i else i)) @ [])"
    by (rule RenderWithoutSign_ulong_digits) simp_all
  then show ?thesis
    using False unfolding magnitude_unat by (simp add: RenderWithoutSign_long_def)
next
  case True
  then have i: "i = 0x80000000" by (rule LONG_MIN_word)
  have s: "sint (0x80000000 :: 32 word) = LONG_MIN"
    by (simp add: LONG_MIN_def)
  have u: "unat (0x80000000 + 1 :: 32 word) = 2147483649" by simp
  have "RenderWithoutSign_ulong (0x80000000 + 1) [] 10 uppercase
     = Some (digits_of (unat (10 :: 32 word)) uppercase (unat (0x80000000 + 1 :: 32 word)) @ [])"
    by (rule RenderWithoutSign_ulong_digits) simp_all
  then have r: "RenderWithoutSign_ulong (0x80000000 + 1) [] 10 uppercase
     = Some (digits_of 10 uppercase 2147483649)"
    unfolding u by simp
  have d9: "digits_of 10 uppercase 2147483649
     = digits_of 10 uppercase 214748364 @ [digit_of uppercase 9]"
    by (subst digits_of.simps) simp
  have d8: "digits_of 10 uppercase 2147483648
     = digits_of 10 uppercase 214748364 @ [digit_of uppercase 8]"
    by (subst digits_of.simps) simp
  have "decrement_last (digits_of 10 uppercase 2147483649) = digits_of 10 uppercase 2147483648"
    unfolding d9 d8 by (simp add: decrement_last_def digit_of_def)
  then have "RenderWithoutSign_long 0x80000000 [] 10 uppercase
     = Some (digits_of 10 uppercase 2147483648)"
    using r s by (simp add: RenderWithoutSign_long_def)
  then show ?thesis
    unfolding i s by (simp add: LONG_MIN_def)
qed

lemma unat_word_of_nat_small:
  "n < 2 ^ 32 \<Longrightarrow> unat (of_nat n :: 32 word) = n"
  by (simp add: unat_of_nat)

lemma field_counts_nat:
  fixes D :: string and sc fc :: char and base :: uint and i :: ulong and s :: PrintfState
  defines "nd \<equiv> length D"
  defines "z0 \<equiv> (if prec s \<noteq> - 1 \<and> fc \<noteq> CHR ''c'' then unat (prec s) - nd else 0)"
  defines "nb \<equiv> (if base \<noteq> 10 \<and> AlternateForm s \<and> i \<noteq> 0
                 then (if base = 16 then 2 else if z0 > 0 then 0 else 1) else (0 :: nat))"
    and "ns \<equiv> (if sc \<noteq> NUL then 1 else (0 :: nat))"
  defines "p \<equiv> nd + z0 + nb + ns"
  defines "gap \<equiv> unat (width s) - p"
  assumes small: "p < 2 ^ 32"
    and fc: "field_counts D sc base fc i s = (cpl, cb, cz, cpr)"
  shows "unat cpl = (if FillZeros s \<and> prec s = - 1 then 0 else if LeftJustify s then 0 else gap)"
    and "unat cb = nb"
    and "unat cz = (if FillZeros s \<and> prec s = - 1 then (if LeftJustify s then 0 else gap) else z0)"
    and "unat cpr = (if LeftJustify s then gap else 0)"
proof -
  define cd :: size_t where "cd = of_nat (length D)"
  define cz0 where "cz0 = (if prec s \<noteq> - 1 \<and> cd < prec s \<and> fc \<noteq> CHR ''c''
             then prec s - cd else 0)"
  define cbw where "cbw = (if base \<noteq> 10 \<and> AlternateForm s \<and> i \<noteq> 0
             then (if base = 16 then 2 else if cz0 > 0 then 0 else 1)
             else (0 :: size_t))"
  define cs where "cs = (if sc \<noteq> NUL then 1 else (0 :: size_t))"
  define tot where "tot = cd + cz0 + cbw + cs"
  have ucd: "unat cd = nd"
    unfolding cd_def nd_def using small
    by (intro unat_word_of_nat_small) (simp add: p_def nd_def)
  have ucz0: "unat cz0 = z0"
  proof (cases "prec s \<noteq> - 1 \<and> fc \<noteq> CHR ''c''")
    case False
    then show ?thesis by (auto simp: cz0_def z0_def)
  next
    case True
    show ?thesis
    proof (cases "cd < prec s")
      case lt: True
      then have "unat (prec s - cd) = unat (prec s) - unat cd"
        by (intro unat_sub) simp
      then show ?thesis using True lt ucd by (simp add: cz0_def z0_def)
    next
      case False
      then have "unat (prec s) \<le> nd"
        using ucd by (simp add: word_less_nat_alt)
      then show ?thesis using True False by (simp add: cz0_def z0_def)
    qed
  qed
  have pos: "cz0 > 0 \<longleftrightarrow> z0 > 0"
    using ucz0 by (simp add: word_greater_zero_iff unat_eq_zero [symmetric] del: unat_eq_zero)
  have ucb: "unat cbw = nb"
    using pos by (simp add: cbw_def nb_def)
  have ucs: "unat cs = ns"
    by (simp add: cs_def ns_def)
  have utot: "unat tot = p"
  proof -
    have 1: "unat (cd + cz0) = nd + z0"
      using small ucd ucz0 by (simp add: unat_add_lem [THEN iffD1] p_def)
    have 2: "unat (cd + cz0 + cbw) = nd + z0 + nb"
      using small 1 ucb by (simp add: unat_add_lem [THEN iffD1] p_def)
    show ?thesis
      unfolding tot_def using small 2 ucs by (simp add: unat_add_lem [THEN iffD1] p_def)
  qed
  have gt: "width s > tot \<longleftrightarrow> unat (width s) > p"
    using utot by (simp add: word_less_nat_alt)
  have ugap: "unat (width s - tot) = gap" if "width s > tot"
  proof -
    have "unat (width s - tot) = unat (width s) - unat tot"
      using that by (intro unat_sub) simp
    then show ?thesis using utot by (simp add: gap_def)
  qed
  have gap0: "gap = 0" if "\<not> width s > tot"
    using that gt by (simp add: gap_def)
  have eq: "(cpl, cb, cz, cpr) =
     ((if FillZeros s \<and> prec s = - 1 then 0
       else if width s > tot \<and> \<not> LeftJustify s then width s - tot else 0),
      cbw,
      (if FillZeros s \<and> prec s = - 1
       then (if width s > tot \<and> \<not> LeftJustify s then width s - tot else 0) else cz0),
      (if width s > tot \<and> LeftJustify s then width s - tot else 0))"
    unfolding tot_def cs_def cbw_def cz0_def cd_def
    using fc [symmetric] unfolding field_counts_def Let_def by simp
  show "unat cpl = (if FillZeros s \<and> prec s = - 1 then 0 else if LeftJustify s then 0 else gap)"
    using eq ugap gap0 by (cases "width s > tot") auto
  show "unat cb = nb"
    using eq ucb by simp
  show "unat cz = (if FillZeros s \<and> prec s = - 1 then (if LeftJustify s then 0 else gap) else z0)"
    using eq ugap gap0 ucz0 by (cases "width s > tot") auto
  show "unat cpr = (if LeftJustify s then gap else 0)"
    using eq ugap gap0 by (cases "width s > tot") auto
qed

lemma length_printable_le_field: "length (printable c i s) \<le> length (int_field c i s)"
  by (auto simp: int_field_def printable_def prec_zeros_def)

lemma rendered_digit_text:
  assumes "c \<in> set ''diuoxX''"
  shows "(if conv_signed c
          then RenderWithoutSign_long i []
                 (if c = CHR ''o'' then 8 else if c = CHR ''x'' \<or> c = CHR ''X'' then 16 else 10)
                 (c = CHR ''X'')
          else RenderWithoutSign_ulong i []
                 (if c = CHR ''o'' then 8 else if c = CHR ''x'' \<or> c = CHR ''X'' then 16 else 10)
                 (c = CHR ''X''))
         = Some (digit_text c i)"
proof (cases "conv_signed c")
  case True
  then show ?thesis
    using RenderWithoutSign_long_decimal [of i "c = CHR ''X''"]
    by (auto simp: digit_text_def conv_signed_def conv_base_def)
next
  case False
  have 8: "RenderWithoutSign_ulong i [] 8 u = Some (digits_of 8 u (unat i))" for u
    using RenderWithoutSign_ulong_digits [of 8 i "[]" u] by simp
  have 10: "RenderWithoutSign_ulong i [] 10 u = Some (digits_of 10 u (unat i))" for u
    using RenderWithoutSign_ulong_digits [of 10 i "[]" u] by simp
  have 16: "RenderWithoutSign_ulong i [] 16 u = Some (digits_of 16 u (unat i))" for u
    using RenderWithoutSign_ulong_digits [of 16 i "[]" u] by simp
  show ?thesis
    using False 8 10 16 by (simp add: digit_text_def conv_base_def)
qed

lemma FormatWithCurrentFlags_counts:
  assumes "peek s 0 = Inr c" and "c \<in> set ''diuoxX''"
  shows "FormatWithCurrentFlags i s =
     (case field_counts (digit_text c i)
             (if sign_text c i s = [] then NUL else hd (sign_text c i s))
             (of_nat (conv_base c)) c i s of
        (countPadLeft, countBase, countZeros, countPadRight) \<Rightarrow>
          print_field countPadLeft (if sign_text c i s = [] then NUL else hd (sign_text c i s))
            countBase c countZeros (digit_text c i) countPadRight s)"
proof -
  have r8: "RenderWithoutSign_ulong i [] 8 u = Some (digits_of 8 u (unat i))" for u
    using RenderWithoutSign_ulong_digits [of 8 i "[]" u] by simp
  have r10: "RenderWithoutSign_ulong i [] 10 u = Some (digits_of 10 u (unat i))" for u
    using RenderWithoutSign_ulong_digits [of 10 i "[]" u] by simp
  have r16: "RenderWithoutSign_ulong i [] 16 u = Some (digits_of 16 u (unat i))" for u
    using RenderWithoutSign_ulong_digits [of 16 i "[]" u] by simp
  from assms(2) consider "c = CHR ''d''" | "c = CHR ''i''" | "c = CHR ''u''"
    | "c = CHR ''o''" | "c = CHR ''x''" | "c = CHR ''X''"
    by auto
  then show ?thesis
  proof cases
    case 1
    then show ?thesis
      using assms(1)
      by (simp add: FormatWithCurrentFlags_def Let_def strchr_def NUL_def
          RenderWithoutSign_long_decimal digit_text_def sign_text_def conv_signed_def
          conv_base_def)
  next
    case 2
    then show ?thesis
      using assms(1)
      by (simp add: FormatWithCurrentFlags_def Let_def strchr_def NUL_def
          RenderWithoutSign_long_decimal digit_text_def sign_text_def conv_signed_def
          conv_base_def)
  next
    case 3
    then show ?thesis
      using assms(1)
      by (simp add: FormatWithCurrentFlags_def Let_def strchr_def NUL_def
          r10 digit_text_def sign_text_def conv_signed_def conv_base_def)
  next
    case 4
    then show ?thesis
      using assms(1)
      by (simp add: FormatWithCurrentFlags_def Let_def strchr_def NUL_def
          r8 digit_text_def sign_text_def conv_signed_def conv_base_def)
  next
    case 5
    then show ?thesis
      using assms(1)
      by (simp add: FormatWithCurrentFlags_def Let_def strchr_def NUL_def
          r16 digit_text_def sign_text_def conv_signed_def conv_base_def)
  next
    case 6
    then show ?thesis
      using assms(1)
      by (simp add: FormatWithCurrentFlags_def Let_def strchr_def NUL_def
          r16 digit_text_def sign_text_def conv_signed_def conv_base_def)
  qed
qed

lemma room_bound: "room n s \<Longrightarrow> n < 2 ^ 32"
  by (simp add: room_def INT_MAX_def)

lemma FormatWithCurrentFlags_int_field:
  assumes pk: "peek s 0 = Inr c" and cv: "c \<in> set ''diuoxX''"
    and rm: "room (length (int_field c i s)) s"
  shows "FormatWithCurrentFlags i s = Next (emit (int_field c i s) s)"
proof -
  define D where "D = digit_text c i"
  define sg where "sg = sign_text c i s"
  define sc where "sc = (if sg = [] then NUL else hd sg)"
  define px where "px = prefix_text c i s"
  define z0 where "z0 = prec_zeros c i s"
  define p where "p = length (printable c i s)"
  define gap where "gap = unat (width s) - p"
  obtain pl cb cz pr where
    fc: "field_counts D sc (of_nat (conv_base c)) c i s = (pl, cb, cz, pr)"
    by (cases "field_counts D sc (of_nat (conv_base c)) c i s") auto
  have fw: "FormatWithCurrentFlags i s = print_field pl sc cb c cz D pr s"
    unfolding FormatWithCurrentFlags_counts [OF pk cv, of i]
    unfolding D_def [symmetric] sg_def [symmetric]
    unfolding sc_def [symmetric] fc by simp
  have nc: "c \<noteq> CHR ''c''" using cv by auto
  have sg_sc: "sg = (if sc \<noteq> NUL then [sc] else [])"
    by (auto simp: sg_def sc_def sign_text_def NUL_def)
  have ns: "length sg = (if sc \<noteq> NUL then 1 else 0)"
    using sg_sc by simp
  have b10: "(of_nat (conv_base c) :: uint) \<noteq> 10 \<longleftrightarrow> conv_base c \<noteq> 10"
    and b16: "(of_nat (conv_base c) :: uint) = 16 \<longleftrightarrow> conv_base c = 16"
    by (simp_all add: conv_base_def)
  have z0': "z0 = (if prec s \<noteq> - 1 \<and> c \<noteq> CHR ''c'' then unat (prec s) - length D else 0)"
    using nc by (simp add: z0_def prec_zeros_def D_def)
  have nb: "length px =
      (if (of_nat (conv_base c) :: uint) \<noteq> 10 \<and> AlternateForm s \<and> i \<noteq> 0
       then (if (of_nat (conv_base c) :: uint) = 16 then 2 else if z0 > 0 then 0 else 1)
       else (0 :: nat))"
    unfolding b10 b16 by (simp add: px_def prefix_text_def z0_def)
  have p': "p = length D + z0 + length px + length sg"
    by (simp add: p_def printable_def D_def z0_def px_def sg_def)
  have "p \<le> length (int_field c i s)"
    unfolding p_def by (rule length_printable_le_field)
  then have small: "length D + z0 + length px + length sg < 2 ^ 32"
    using room_bound [OF rm] p' by simp
  note n = field_counts_nat [OF small [unfolded z0' nb ns] fc, folded z0' nb ns p' gap_def]
  have px_cb: "px = (if cb > 0 then ''0'' else []) @ (if cb = 2 then [c] else [])"
  proof -
    have "of_nat (unat cb) = cb" by simp
    then have cbl: "cb = of_nat (length px)"
      using n(2) by simp
    have "length px \<le> 2"
      by (auto simp: px_def prefix_text_def)
    then consider "length px = 0" | "length px = 1" | "length px = 2"
      by linarith
    then show ?thesis
    proof cases
      case 1
      then show ?thesis using cbl by simp
    next
      case 2
      then have "px = ''0''"
        by (auto simp: px_def prefix_text_def split: if_splits)
      then show ?thesis using cbl by simp
    next
      case 3
      then have "px = [CHR ''0'', c]"
        by (auto simp: px_def prefix_text_def split: if_splits)
      then show ?thesis using cbl by simp
    qed
  qed
  define P where "P = printable c i s"
  have P: "P = sg @ px @ replicate z0 CHR ''0'' @ D"
    by (simp add: P_def printable_def sg_def px_def z0_def D_def)
  have pP: "p = length P"
    by (simp add: p_def P_def)
  have IF: "int_field c i s =
     (if unat (width s) \<le> p then P
      else if LeftJustify s then P @ replicate gap CHR '' ''
      else if FillZeros s \<and> prec s = - 1 then sg @ px @ replicate gap CHR ''0'' @ D
      else replicate gap CHR '' '' @ P)"
    unfolding int_field_def P_def [symmetric] pP [symmetric] gap_def [symmetric]
      sg_def [symmetric] px_def [symmetric] D_def [symmetric] ..
  have zero: "prec s = - 1 \<longrightarrow> z0 = 0"
    by (simp add: z0_def prec_zeros_def)
  have field: "replicate (unat pl) CHR '' '' @ sg @ px @ replicate (unat cz) CHR ''0'' @ D @
      replicate (unat pr) CHR '' '' = int_field c i s"
  proof (cases "unat (width s) \<le> p")
    case True
    then show ?thesis
      unfolding IF n using zero by (auto simp: P gap_def p')
  next
    case False
    show ?thesis
    proof (cases "LeftJustify s")
      case True
      then show ?thesis
        unfolding IF n using False zero by (auto simp: P gap_def p')
    next
      case nl: False
      show ?thesis
      proof (cases "FillZeros s \<and> prec s = - 1")
        case True
        then show ?thesis
          unfolding IF n using False nl zero by (auto simp: gap_def p')
      next
        case nt: False
        then show ?thesis
          unfolding IF n using False nl by (auto simp: P gap_def p')
      qed
    qed
  qed
  have "length (int_field c i s)
      = unat pl + (length sg + (length px + (unat cz + (length D + unat pr))))"
    unfolding field [symmetric] by simp
  then have "room (unat pl + (length sg + (length px + (unat cz + (length D + unat pr))))) s"
    using rm by simp
  from print_field_emit [OF this sg_sc px_cb] show ?thesis
    unfolding fw field .
qed

lemma op_ulong_leaders:
  assumes "result s \<noteq> - 1" "ReadLeaders s = Inr s1" "peek s1 0 = Inr c" "c \<noteq> CHR ''*''"
  shows "op_ulong i s =
     FormatWithCurrentFlags
       (if ForceShort s1 \<and> c \<in> set ''xXuo'' then ucast (ucast i :: ushort) else i) s1"
proof -
  from assms(2) obtain sa sb cb sc where
    a: "ReadFlags s = Inr sa" and b: "ReadWidth sa = Inr sb" and cb: "peek sb 0 = Inr cb"
    and c: "(if cb = CHR ''.'' then ReadPrecision sb else Inr sb) = Inr sc"
    and d: "ReadModifiers sc = Inr s1"
    by (auto simp: ReadLeaders_def thenF_eq_Inr)
  obtain ca where ca: "peek sa 0 = Inr ca"
    using b by (auto simp: ReadWidth_def ParseDecimalUInt_def thenF_eq_Inr)
  have not_star: "ca \<noteq> CHR ''*''"
  proof
    assume star: "ca = CHR ''*''"
    then have "sb = sa"
      using b ca by (auto simp: ReadWidth_def ParseDecimalUInt_def isdigit_def)
    then have "sc = sa" using c ca cb star by auto
    then have "s1 = sa" using d ca star by (auto simp: ReadModifiers_def)
    then show False using assms(3,4) ca star by simp
  qed
  have render: "op_ulong_render i sc =
     FormatWithCurrentFlags
       (if ForceShort s1 \<and> c \<in> set ''xXuo'' then ucast (ucast i :: ushort) else i) s1"
    using d assms(3) by (auto simp: op_ulong_render_def Let_def)
  show ?thesis
  proof (cases "cb = CHR ''.''")
    case False
    then have "sc = sb" using c by simp
    then show ?thesis
      using assms(1) a b ca cb False not_star render
      by (simp add: op_ulong_def)
  next
    case True
    then have p: "ReadPrecision sb = Inr sc" using c by simp
    then obtain c1 where c1: "peek sb 1 = Inr c1"
      using cb True
      by (auto simp: ReadPrecision_def ParseDecimalUInt_def thenF_eq_Inr)
    have "c1 \<noteq> CHR ''*''"
    proof
      assume star: "c1 = CHR ''*''"
      then have s0: "peek (skip 1 sb) 0 = Inr CHR ''*''"
        using c1 by simp
      then have "sc = skip 1 sb"
        using p cb True by (auto simp: ReadPrecision_def ParseDecimalUInt_def isdigit_def)
      then have "s1 = skip 1 sb" using d s0 by (auto simp: ReadModifiers_def)
      then show False using assms(3,4) s0 by simp
    qed
    then show ?thesis
      using assms(1) a b ca cb True not_star c1 p render
      by (simp add: op_ulong_def)
  qed
qed

lemma char_of_decimal_digits:
  "char_of (48 :: nat) = CHR ''0''" "char_of (49 :: nat) = CHR ''1''"
  "char_of (50 :: nat) = CHR ''2''" "char_of (51 :: nat) = CHR ''3''"
  "char_of (52 :: nat) = CHR ''4''" "char_of (53 :: nat) = CHR ''5''"
  "char_of (54 :: nat) = CHR ''6''" "char_of (55 :: nat) = CHR ''7''"
  "char_of (56 :: nat) = CHR ''8''" "char_of (57 :: nat) = CHR ''9''"
  by code_simp+

lemma digit_of_decimal:
  assumes "d < 10"
  shows "isdigit (digit_of u d)" and "of_char (digit_of u d) - 48 = d"
proof -
  have "[0..<10] = [0, 1, 2, 3, 4, 5, 6, 7, 8, 9 :: nat]"
    by code_simp
  moreover have "d \<in> set [0..<10]"
    using assms by simp
  ultimately have "d \<in> {0, 1, 2, 3, 4, 5, 6, 7, 8, 9}"
    by simp
  then show "isdigit (digit_of u d)"
    by (auto simp: digit_of_def isdigit_def char_of_decimal_digits)
  show "of_char (digit_of u d) - 48 = d"
    using assms by (simp add: digit_of_def)
qed

lemma dec_value_snoc: "dec_value (xs @ [c]) = 10 * dec_value xs + (of_char c - 48)"
  by (simp add: dec_value_def)

lemma digits_of_decimal:
  "digits_of 10 u n \<noteq> [] \<and> list_all isdigit (digits_of 10 u n) \<and> dec_value (digits_of 10 u n) = n"
proof (induction n rule: less_induct)
  case (less n)
  show ?case
  proof (cases "n < 10")
    case True
    then show ?thesis
      using digit_of_decimal [OF True, of u]
      by (subst (1 2 3) digits_of.simps) (simp add: dec_value_def)
  next
    case False
    then have "n div 10 < n" by simp
    from less [OF this] digit_of_decimal [of "n mod 10" u] False show ?thesis
      by (subst (1 2 3) digits_of.simps) (simp add: dec_value_snoc)
  qed
qed

lemma dec_value_zeros: "dec_value (replicate z CHR ''0'' @ ds) = dec_value ds"
proof -
  have "foldl (\<lambda>a c. 10 * a + (of_char c - 48)) 0 (replicate z CHR ''0'') = (0 :: nat)"
    by (induction z) simp_all
  then show ?thesis by (simp add: dec_value_def)
qed

lemma isdigit_not_sign:
  "isdigit c \<Longrightarrow> c \<noteq> CHR '' '' \<and> c \<noteq> CHR ''-'' \<and> c \<noteq> CHR ''+''"
  by (auto simp: isdigit_def)

lemma parse_decimal_field:
  assumes "D \<noteq> []" and "list_all isdigit D"
    and "sg = [] \<or> sg = ''-'' \<or> sg = ''+'' \<or> sg = '' ''"
  shows "parse_decimal (replicate a CHR '' '' @ sg @ replicate z CHR ''0'' @ D @ replicate r CHR '' '')
     = Some (if sg = ''-'' then - int (dec_value D) else int (dec_value D))"
proof -
  define Z where "Z = replicate z CHR ''0'' @ D"
  have i0: "isdigit CHR ''0''"
    by (simp add: isdigit_def)
  have Z: "Z \<noteq> []" "list_all isdigit Z" "dec_value Z = dec_value D"
    using assms(1,2) i0 by (auto simp: Z_def dec_value_zeros list_all_iff)
  obtain h t where ht: "Z = h # t" using Z(1) by (cases Z) auto
  then have h: "isdigit h" using Z(2) by simp
  note hs = isdigit_not_sign [OF h]
  have ns: "\<not> isdigit CHR '' ''"
    by (simp add: isdigit_def)
  have tk0: "takeWhile isdigit (replicate r CHR '' '') = []"
    using ns by (cases r) simp_all
  have dr0: "dropWhile isdigit (replicate r CHR '' '') = replicate r CHR '' ''"
    using ns by (cases r) simp_all
  have tk: "takeWhile isdigit (Z @ replicate r CHR '' '') = Z"
    using Z(2) tk0 by (simp add: takeWhile_append2 list_all_iff)
  have dr: "dropWhile isdigit (Z @ replicate r CHR '' '') = replicate r CHR '' ''"
    using Z(2) dr0 by (simp add: dropWhile_append2 list_all_iff)
  have sp: "dropWhile (\<lambda>c. c = CHR '' '') (replicate a CHR '' '' @ xs)
            = dropWhile (\<lambda>c. c = CHR '' '') xs" for xs
    by (induction a) simp_all
  have all: "list_all (\<lambda>c. c = CHR '' '') (replicate r CHR '' '')"
    by (simp add: list_all_iff)
  have body: "replicate a CHR '' '' @ sg @ replicate z CHR ''0'' @ D @ replicate r CHR '' ''
     = replicate a CHR '' '' @ sg @ Z @ replicate r CHR '' ''"
    by (simp add: Z_def)
  from assms(3) show ?thesis
  proof (elim disjE)
    assume "sg = []"
    then show ?thesis
      unfolding body parse_decimal_def sp
      using hs tk dr all Z by (simp add: Let_def ht [symmetric]) (simp add: ht)
  next
    assume "sg = ''-''"
    then show ?thesis
      unfolding body parse_decimal_def sp
      using tk dr all Z by (simp add: Let_def)
  next
    assume "sg = ''+''"
    then show ?thesis
      unfolding body parse_decimal_def sp
      using tk dr all Z by (simp add: Let_def)
  next
    assume "sg = '' ''"
    then show ?thesis
      unfolding body parse_decimal_def sp
      using hs tk dr all Z by (simp add: Let_def ht [symmetric]) (simp add: ht)
  qed
qed

lemma int_field_decimal_shape:
  assumes "c = CHR ''d'' \<or> c = CHR ''i''"
  shows "\<exists>a z r. int_field c n s =
     replicate a CHR '' '' @ sign_text c n s @ replicate z CHR ''0'' @
     digits_of 10 False (nat \<bar>sint n\<bar>) @ replicate r CHR '' ''"
proof -
  have px: "prefix_text c n s = []" and D: "digit_text c n = digits_of 10 False (nat \<bar>sint n\<bar>)"
    using assms by (auto simp: prefix_text_def digit_text_def conv_base_def conv_signed_def)
  define D' where "D' = digits_of 10 False (nat \<bar>sint n\<bar>)"
  define g where "g = unat (width s) - length (printable c n s)"
  have P: "printable c n s = sign_text c n s @ replicate (prec_zeros c n s) CHR ''0'' @ D'"
    by (simp add: printable_def px D D'_def)
  consider "unat (width s) \<le> length (printable c n s)"
    | "\<not> unat (width s) \<le> length (printable c n s)" "LeftJustify s"
    | "\<not> unat (width s) \<le> length (printable c n s)" "\<not> LeftJustify s"
        "FillZeros s \<and> prec s = - 1"
    | "\<not> unat (width s) \<le> length (printable c n s)" "\<not> LeftJustify s"
        "\<not> (FillZeros s \<and> prec s = - 1)"
    by blast
  then show ?thesis
  proof cases
    case 1
    then have "int_field c n s = replicate 0 CHR '' '' @ sign_text c n s @
        replicate (prec_zeros c n s) CHR ''0'' @ D' @ replicate 0 CHR '' ''"
      by (simp add: int_field_def P)
    then show ?thesis unfolding D'_def by blast
  next
    case 2
    then have "int_field c n s = replicate 0 CHR '' '' @ sign_text c n s @
        replicate (prec_zeros c n s) CHR ''0'' @ D' @ replicate g CHR '' ''"
      by (simp add: int_field_def P g_def)
    then show ?thesis unfolding D'_def by blast
  next
    case 3
    then have "int_field c n s = replicate 0 CHR '' '' @ sign_text c n s @
        replicate g CHR ''0'' @ D' @ replicate 0 CHR '' ''"
      by (simp add: int_field_def px D D'_def g_def)
    then show ?thesis unfolding D'_def by blast
  next
    case 4
    then have "int_field c n s = replicate g CHR '' '' @ sign_text c n s @
        replicate (prec_zeros c n s) CHR ''0'' @ D' @ replicate 0 CHR '' ''"
      by (auto simp: int_field_def P g_def)
    then show ?thesis unfolding D'_def by blast
  qed
qed

lemma parse_int_field:
  assumes "c = CHR ''d'' \<or> c = CHR ''i''"
  shows "parse_decimal (int_field c n s) = Some (sint n)"
proof -
  obtain a z r where f: "int_field c n s =
     replicate a CHR '' '' @ sign_text c n s @ replicate z CHR ''0'' @
     digits_of 10 False (nat \<bar>sint n\<bar>) @ replicate r CHR '' ''"
    using int_field_decimal_shape [OF assms] by blast
  note d = digits_of_decimal [of False "nat \<bar>sint n\<bar>"]
  have sg: "sign_text c n s = [] \<or> sign_text c n s = ''-'' \<or> sign_text c n s = ''+''
      \<or> sign_text c n s = '' ''"
    by (simp add: sign_text_def)
  have neg: "sign_text c n s = ''-'' \<longleftrightarrow> sint n < 0"
    using assms by (auto simp: sign_text_def conv_signed_def)
  show ?thesis
    unfolding f using parse_decimal_field [of "digits_of 10 False (nat \<bar>sint n\<bar>)"
        "sign_text c n s" a z r] d sg neg
    by auto
qed

subsection \<open>Fields in terms of the parsed state\<close>

text \<open>
  \<^verbatim>\<open>ReadPrecision\<close> at a \<^verbatim>\<open>.\<close> that no digit follows: the cursor moves
  over the \<^verbatim>\<open>.\<close>, and \<^verbatim>\<open>ParseDecimalUInt\<close> returns at its first line
  without a store, so \<^verbatim>\<open>prec_\<close> keeps the value it had.
\<close>

lemma ReadPrecision_bare_dot:
  assumes "peek s 0 = Inr CHR ''.''" and "peek (skip 1 s) 0 = Inr c" and "\<not> isdigit c"
  shows "ReadPrecision s = Inr (skip 1 s)"
  using assms by (simp add: ReadPrecision_def ParseDecimalUInt_def)

text \<open>
  What \<^verbatim>\<open>operator()(const char*)\<close> emits at an \<^verbatim>\<open>s\<close> directive, in terms
  of the members \<^verbatim>\<open>width_\<close>, \<^verbatim>\<open>prec_\<close> and \<^verbatim>\<open>flags_\<close> as
  \<^verbatim>\<open>ReadLeaders\<close> leaves them in the state \<open>s1\<close>: with \<open>n\<close> the smaller of
  the length of the string and \<^verbatim>\<open>prec_\<close>, the first \<open>n\<close> characters, filled
  with spaces up to \<^verbatim>\<open>width_\<close>, after the characters under the left-justify
  flag and before them otherwise. This is a fact about the members, whatever
  the text of the directive was that set them.
\<close>

lemma op_cstr_field:
  assumes "ReadLeaders s = Inr s1"
    and "peek s1 0 = Inr CHR ''s''"
    and "NUL \<notin> set str" and "length str < 2 ^ 32"
    and "room (max (min (length str) (unat (prec s1))) (unat (width s1))) s"
  shows "op_cstr p str s =
     Next (emit
       (if unat (width s1) > min (length str) (unat (prec s1)) then
          (if LeftJustify s1 then
             take (min (length str) (unat (prec s1))) str @
             replicate (unat (width s1) - min (length str) (unat (prec s1))) CHR '' ''
           else
             replicate (unat (width s1) - min (length str) (unat (prec s1))) CHR '' '' @
             take (min (length str) (unat (prec s1))) str)
        else take (min (length str) (unat (prec s1))) str) s1)
     \<and> (prec s1 = - 1 \<longrightarrow> take (min (length str) (unat (prec s1))) str = str)"
proof -
  define n where "n = min (length str) (unat (prec s1))"
  define len where "len = min (strlen str) (prec s1)"
  have len: "unat len = n"
    by (simp add: len_def n_def unat_min strlen_plain [OF assms(3,4)])
  have so: "same_output s s1"
    using assms(1) by (rule ReadLeaders_same_output)
  have room1: "room (max n (unat (width s1))) s1"
    using assms(5) so by (simp add: room_def same_output_def n_def)
  have nr: "result s \<noteq> - 1"
    using assms(5) by (auto simp: room_def)
  have tk: "length (take n str) = n"
    by (simp add: n_def)
  have w: "Write (take n str) t = Inr (emit (take n str) t)" if "room n t" for t
    using that tk Write_emit [of "take n str" t] by simp
  have body: "(if width s1 > len then
                    (if LeftJustify s1 then
                       thenF (Write (take (unat len) str) s1)
                         (\<lambda>s. Fill CHR '' '' (width s - len) s)
                     else
                       thenF (Fill CHR '' '' (width s1 - len) s1)
                         (\<lambda>s. Write (take (unat len) str) s))
                  else Write (take (unat len) str) s1)
     = Inr (emit (if unat (width s1) > n then
          (if LeftJustify s1 then take n str @ replicate (unat (width s1) - n) CHR '' ''
           else replicate (unat (width s1) - n) CHR '' '' @ take n str)
        else take n str) s1)"
  proof (cases "width s1 > len")
    case False
    then have "\<not> unat (width s1) > n"
      using len by (simp add: word_less_nat_alt)
    moreover have "room n s1" using room1 by (rule room_mono) simp
    ultimately show ?thesis using False w len by simp
  next
    case True
    then have gt: "unat (width s1) > n"
      using len by (simp add: word_less_nat_alt)
    have pad: "unat (width s1 - len) = unat (width s1) - n"
      using True len by (simp add: unat_sub word_le_nat_alt word_less_nat_alt)
    have rw: "room (unat (width s1)) s1"
      using room1 by (rule room_mono) simp
    show ?thesis
    proof (cases "LeftJustify s1")
      case True
      have 1: "room n s1" using room1 by (rule room_mono) simp
      have "room (length (take n str) + (unat (width s1) - n)) s1"
        using rw gt tk by simp
      then have "room (unat (width s1) - n) (emit (take n str) s1)"
        by (rule room_emit)
      then have "Fill CHR '' '' (width s1 - len) (emit (take n str) s1)
                 = Inr (emit (replicate (unat (width s1) - n) CHR '' '') (emit (take n str) s1))"
        using Fill_emit [of "width s1 - len" "emit (take n str) s1" "CHR '' ''"] pad by simp
      then show ?thesis
        using True \<open>width s1 > len\<close> gt w [OF 1] len by simp
    next
      case False
      have 1: "room (unat (width s1 - len)) s1"
        using rw by (rule room_mono) (simp add: pad)
      have f: "Fill CHR '' '' (width s1 - len) s1
                 = Inr (emit (replicate (unat (width s1) - n) CHR '' '') s1)"
        using Fill_emit [OF 1, of "CHR '' ''"] pad by simp
      have "room (length (replicate (unat (width s1) - n) CHR '' '') + n) s1"
        using rw gt by simp
      then have "room n (emit (replicate (unat (width s1) - n) CHR '' '') s1)"
        by (rule room_emit)
      from w [OF this] show ?thesis
        using False \<open>width s1 > len\<close> gt f len by simp
    qed
  qed
  have "op_cstr p str s = Next (emit (if unat (width s1) > n then
          (if LeftJustify s1 then take n str @ replicate (unat (width s1) - n) CHR '' ''
           else replicate (unat (width s1) - n) CHR '' '' @ take n str)
        else take n str) s1)"
    using nr assms(1,2) body
    by (simp add: op_cstr_def Let_def len_def [symmetric])
  moreover have "take n str = str" if "prec s1 = - 1"
  proof -
    have "unat (- 1 :: 32 word) = 4294967295"
      by (simp add: unsigned_minus_1_eq_mask mask_eq_exp_minus_1)
    then show ?thesis using that assms(4) by (simp add: n_def)
  qed
  ultimately show ?thesis
    unfolding n_def by blast
qed

text \<open>
  What an integer emits at one of \<^verbatim>\<open>d i u o x X\<close> when the printable content
  is shorter than \<^verbatim>\<open>width_\<close>, again in terms of the members as
  \<^verbatim>\<open>ReadLeaders\<close> leaves them: the field has the length \<^verbatim>\<open>width_\<close>, and
  the zeros of the zero-fill flag are used when \<^verbatim>\<open>prec_\<close> is
  \<^verbatim>\<open>size_t(-1)\<close>.
\<close>

lemma op_ulong_width_padding:
  assumes "ReadLeaders s = Inr s1" and "peek s1 0 = Inr c" and "c \<in> set ''diuoxX''"
    and "v = (if ForceShort s1 \<and> c \<in> set ''xXuo'' then ucast (ucast i :: ushort) else i)"
    and "length (printable c v s1) < unat (width s1)"
    and "room (unat (width s1)) s"
  shows "op_ulong i s = Next (emit (int_field c v s1) s1)
     \<and> length (int_field c v s1) = unat (width s1)
     \<and> int_field c v s1 =
         (if LeftJustify s1 then
            printable c v s1 @
            replicate (unat (width s1) - length (printable c v s1)) CHR '' ''
          else if FillZeros s1 \<and> prec s1 = - 1 then
            sign_text c v s1 @ prefix_text c v s1 @
            replicate (unat (width s1) - length (printable c v s1)) CHR ''0'' @ digit_text c v
          else
            replicate (unat (width s1) - length (printable c v s1)) CHR '' '' @
            printable c v s1)"
proof -
  have so: "same_output s s1"
    using assms(1) by (rule ReadLeaders_same_output)
  have nr: "result s \<noteq> - 1"
    using assms(6) by (auto simp: room_def)
  have ns: "c \<noteq> CHR ''*''"
    using assms(3) by auto
  have f: "int_field c v s1 =
         (if LeftJustify s1 then
            printable c v s1 @
            replicate (unat (width s1) - length (printable c v s1)) CHR '' ''
          else if FillZeros s1 \<and> prec s1 = - 1 then
            sign_text c v s1 @ prefix_text c v s1 @
            replicate (unat (width s1) - length (printable c v s1)) CHR ''0'' @ digit_text c v
          else
            replicate (unat (width s1) - length (printable c v s1)) CHR '' '' @
            printable c v s1)"
    using assms(5) by (simp add: int_field_def)
  have z: "prec s1 = - 1 \<longrightarrow> prec_zeros c v s1 = 0"
    by (simp add: prec_zeros_def)
  have l: "length (int_field c v s1) = unat (width s1)"
    unfolding f using assms(5) z by (auto simp: printable_def)
  have "room (length (int_field c v s1)) s1"
    unfolding l using assms(6) so by (simp add: room_def same_output_def)
  from FormatWithCurrentFlags_int_field [OF assms(2,3) this]
  have "op_ulong i s = Next (emit (int_field c v s1) s1)"
    unfolding op_ulong_leaders [OF nr assms(1,2) ns, of i] assms(4) .
  then show ?thesis using l f by blast
qed

section \<open>The claims\<close>

subsection \<open>C1: the fixed-size buffer sink\<close>

text \<open>
  C1 says that \<^verbatim>\<open>write\<close> on the fixed-size buffer throws
  \<^verbatim>\<open>overflow_error\<close> exactly when the length \<^verbatim>\<open>to - from\<close> exceeds the
  remaining capacity, and that otherwise it copies the characters and
  lowers the capacity by the length, so that the buffer is never overrun.
  The test of the source is \<^verbatim>\<open>from + s.second > to\<close>, which holds when
  the capacity exceeds the length. On a buffer of eight elements a write of
  two characters throws; with two elements left, a write of five characters
  does not throw: it stores past the end of a two-element array, and in an
  array of eight it leaves the capacity at \<open>2 - 5\<close>, which wraps.
\<close>

theorem C1_bounded_write_test_inverted:
  "write_dev (BufPrintf_device ''xxxxxxxx'') ''ab'' = Inl overflow_error
   \<and> write_dev (BufDev ''xx'' 0 2) ''abcde'' = Inl buffer_overrun
   \<and> write_dev (BufDev ''xxxxxxxx'' 0 2) ''abcde'' = Inr (BufDev ''abcdexxx'' 5 (- 3))"
  by (simp add: BufPrintf_device_def)

subsection \<open>C2: the error sentinel is sticky\<close>

text \<open>
  C2: once \<^verbatim>\<open>result_\<close> is \<open>-1\<close> it stays \<open>-1\<close>, and every later call of
  \<^verbatim>\<open>operator()\<close>, of whatever overload and in whatever number, and every
  later \<^verbatim>\<open>Write\<close> and \<^verbatim>\<open>Fill\<close> leaves the whole state as it is:
  nothing reaches the sink, nothing is stored through a count-store pointer,
  and the \<^verbatim>\<open>int\<close> conversion still gives \<open>-1\<close>.
\<close>

theorem C2_sentinel_is_sticky:
  "result s = - 1 \<Longrightarrow>
     operator_calls args s = Inr (s, replicate (length args) None)
     \<and> Write xs s = Inr s
     \<and> Fill c n s = Inr s
     \<and> operator_int s = - 1"
  by (simp add: operator_calls_failed Write_failed Fill_failed operator_int_def)

theorem C2_sentinel_is_sticky_witness:
  "result \<lparr>device = StringDev ''ab'', fmt = ''ab%d%n'', format = 3, width = 0, prec = - 1,
            flags = 0, result = - 1\<rparr> = - 1
   \<and> operator_calls [AInt 42, AIntPtr 4096, ACStr 8192 ''xyz'']
        \<lparr>device = StringDev ''ab'', fmt = ''ab%d%n'', format = 3, width = 0, prec = - 1,
           flags = 0, result = - 1\<rparr>
      = Inr (\<lparr>device = StringDev ''ab'', fmt = ''ab%d%n'', format = 3, width = 0, prec = - 1,
               flags = 0, result = - 1\<rparr>, [None, None, None])
   \<and> Write ''xyz''
        \<lparr>device = StringDev ''ab'', fmt = ''ab%d%n'', format = 3, width = 0, prec = - 1,
           flags = 0, result = - 1\<rparr>
      = Inr \<lparr>device = StringDev ''ab'', fmt = ''ab%d%n'', format = 3, width = 0, prec = - 1,
              flags = 0, result = - 1\<rparr>"
  using C2_sentinel_is_sticky [of
    "\<lparr>device = StringDev ''ab'', fmt = ''ab%d%n'', format = 3, width = 0, prec = - 1,
       flags = 0, result = - 1\<rparr>"
    "[AInt 42, AIntPtr 4096, ACStr 8192 ''xyz'']" "''xyz''"]
  by simp

subsection \<open>C10: a negative argument for a deferred width\<close>

text \<open>
  C10: when the directive asks for its width with \<^verbatim>\<open>*\<close> and the argument
  is a negative \<^verbatim>\<open>int\<close> \<open>n\<close>, the width becomes the unsigned reading of
  the same bits, \<open>2 ^ 32 + n\<close> (the largest \<^verbatim>\<open>size_t\<close> for \<open>-1\<close>); the
  flags stay as \<^verbatim>\<open>ReadFlags\<close> left them, so no left-justification is
  added, and the cursor moves past the \<^verbatim>\<open>*\<close>.
\<close>

theorem C10_negative_star_width_wraps:
  assumes "result s \<noteq> - 1"
    and "ReadFlags s = Inr s1"
    and "peek s1 0 = Inr CHR ''*''"
    and "sint n < 0"
  shows "op_int n s = Inr (s1\<lparr>format := format s1 + 1, width := n\<rparr>)
    \<and> uint n = 2 ^ 32 + sint n"
proof -
  have "op_int n s = Inr (s1\<lparr>format := format s1 + 1, width := n\<rparr>)"
    using assms(1-3) by (simp add: op_int_def op_ulong_def skip_def SetWidth_def)
  then show ?thesis
    using uint_of_negative [OF assms(4)] by simp
qed

theorem C10_negative_star_width_wraps_witness:
  "op_int (- 1)
     \<lparr>device = StringDev [], fmt = ''%-*d'', format = 1, width = 0, prec = - 1, flags = 0,
        result = 0\<rparr>
     = Inr \<lparr>device = StringDev [], fmt = ''%-*d'', format = 3, width = 4294967295,
             prec = - 1, flags = 1, result = 0\<rparr>
   \<and> uint (- 1 :: 32 word) = 2 ^ 32 + sint (- 1 :: 32 word)"
  using C10_negative_star_width_wraps [of
     "\<lparr>device = StringDev [], fmt = ''%-*d'', format = 1, width = 0, prec = - 1, flags = 0,
        result = 0\<rparr>"
     "\<lparr>device = StringDev [], fmt = ''%-*d'', format = 2, width = 0, prec = - 1, flags = 1,
        result = 0\<rparr>"
     "- 1"]
  by (simp add: ReadFlags.simps peek_def char_at_def skip_def SetLeftJustify_def
        leftJustify_def)

subsection \<open>C4: a trailing incomplete directive\<close>

text \<open>
  C4 says that an argument fed to a directive that ends at the terminator
  (\<^verbatim>\<open>%\<close> alone, or \<^verbatim>\<open>%\<close> with flags, width or precision and no
  conversion character) sets the result to \<open>-1\<close>. For a string argument it
  does. For an integer the validity test is
  \<^verbatim>\<open>!strchr("cdiuoxX", formatChar)\<close>, and \<^verbatim>\<open>strchr\<close> finds the
  terminating zero in every string: the test passes, the integer is printed
  in decimal, \<^verbatim>\<open>Next()\<close> moves the cursor past the terminator and
  \<^verbatim>\<open>Advance()\<close> reads there. Where the bytes after the terminator can be
  read (the last but one conjunct: the format is \<^verbatim>\<open>%\<close>, its terminator,
  then \<^verbatim>\<open>a\<close> and a second terminator) the call returns with \<open>42a\<close> in
  the sink and the result 3.
\<close>

theorem C4_trailing_percent_not_rejected:
  "strchr ''cdiuoxX'' NUL
   \<and> SPrintf [] ''%'' = Inr \<lparr>device = StringDev [], fmt = ''%'', format = 1, width = 0,
                              prec = - 1, flags = 0, result = 0\<rparr>
   \<and> thenF (SPrintf [] ''%'') (op_int 42) = Inl out_of_bounds_read
   \<and> thenF (SPrintf [] ''%-5.3'') (op_int 42) = Inl out_of_bounds_read
   \<and> thenF (SPrintf [] [CHR ''%'', NUL, CHR ''a'']) (op_int 42)
       = Inr \<lparr>device = StringDev ''42a'', fmt = [CHR ''%'', NUL, CHR ''a''], format = 3,
               width = 0, prec = - 1, flags = 0, result = 3\<rparr>
   \<and> thenF (SPrintf [] ''%'') (op_cstr 4096 ''x'')
       = Inr \<lparr>device = StringDev [], fmt = ''%'', format = 1, width = 0,
               prec = - 1, flags = 0, result = - 1\<rparr>"
  by code_simp


subsection \<open>C8: an argument of the wrong kind\<close>

text \<open>
  C8: let \<open>c\<close> be the conversion character of the current directive, the
  character \<^verbatim>\<open>ReadLeaders\<close> stops at. A string where \<open>c\<close> is neither
  \<^verbatim>\<open>s\<close> nor \<^verbatim>\<open>p\<close>, an integer where \<open>c\<close> is none of
  \<^verbatim>\<open>c d i u o x X p\<close>, and a count-store pointer where \<open>c\<close> is neither
  \<^verbatim>\<open>n\<close> nor \<^verbatim>\<open>p\<close> all return normally (no fault is raised) with
  the result \<open>-1\<close>, and the sink is the one the call started with. For the
  integer, \<open>c\<close> is a character of the format string: not the terminator
  (that is C4) and not a \<^verbatim>\<open>*\<close>, which asks for a width or a precision.
  Every integral overload is \<open>op_ulong\<close> at some \<open>i\<close>.
\<close>

theorem C8_kind_mismatch_sets_sentinel:
  assumes "result s \<noteq> - 1" and "ReadLeaders s = Inr s1" and "peek s1 0 = Inr c"
  shows "(c \<noteq> CHR ''s'' \<and> c \<noteq> CHR ''p'' \<longrightarrow>
            op_cstr p str s = Inr (s1\<lparr>result := - 1\<rparr>))
     \<and> (c \<notin> set ''cdiuoxXp'' \<and> c \<noteq> NUL \<and> c \<noteq> CHR ''*'' \<longrightarrow>
            op_ulong i s = Inr (s1\<lparr>result := - 1\<rparr>))
     \<and> (c \<noteq> CHR ''n'' \<and> c \<noteq> CHR ''p'' \<longrightarrow>
            StoreCountHelper conv pi s = Inr (s1\<lparr>result := - 1\<rparr>, None))
     \<and> device s1 = device s"
proof -
  have "device s1 = device s"
    using ReadLeaders_same_output [OF assms(2)] by (simp add: same_output_def)
  moreover have "op_cstr p str s = Inr (s1\<lparr>result := - 1\<rparr>)"
    if "c \<noteq> CHR ''s''" "c \<noteq> CHR ''p''"
    using assms that by (simp add: op_cstr_def)
  moreover have "StoreCountHelper conv pi s = Inr (s1\<lparr>result := - 1\<rparr>, None)"
    if "c \<noteq> CHR ''n''" "c \<noteq> CHR ''p''"
    using assms that by (simp add: StoreCountHelper_def)
  moreover have "op_ulong i s = Inr (s1\<lparr>result := - 1\<rparr>)"
    if "c \<notin> set ''cdiuoxXp''" "c \<noteq> NUL" "c \<noteq> CHR ''*''"
    using op_ulong_unknown [OF assms that] .
  ultimately show ?thesis by blast
qed


theorem C8_kind_mismatch_sets_sentinel_witness:
  "op_cstr 4096 ''hello''
      \<lparr>device = StringDev ''ab'', fmt = ''ab%d'', format = 3, width = 0, prec = - 1,
         flags = 0, result = 2\<rparr>
     = Inr \<lparr>device = StringDev ''ab'', fmt = ''ab%d'', format = 3, width = 0, prec = - 1,
             flags = 0, result = - 1\<rparr>
   \<and> op_ulong 42
      \<lparr>device = StringDev ''ab'', fmt = ''ab%s'', format = 3, width = 0, prec = - 1,
         flags = 0, result = 2\<rparr>
     = Inr \<lparr>device = StringDev ''ab'', fmt = ''ab%s'', format = 3, width = 0, prec = - 1,
             flags = 0, result = - 1\<rparr>
   \<and> StoreCountHelper (\<lambda>r. r) 4096
      \<lparr>device = StringDev ''ab'', fmt = ''ab%s'', format = 3, width = 0, prec = - 1,
         flags = 0, result = 2\<rparr>
     = Inr (\<lparr>device = StringDev ''ab'', fmt = ''ab%s'', format = 3, width = 0, prec = - 1,
             flags = 0, result = - 1\<rparr>, None)"
proof -
  let ?d = "\<lparr>device = StringDev ''ab'', fmt = ''ab%d'', format = 3, width = 0, prec = - 1,
         flags = 0, result = 2\<rparr>"
  let ?s = "\<lparr>device = StringDev ''ab'', fmt = ''ab%s'', format = 3, width = 0, prec = - 1,
         flags = 0, result = 2\<rparr>"
  have d1: "result ?d \<noteq> - 1" and s1: "result ?s \<noteq> - 1" by simp_all
  have d2: "ReadLeaders ?d = Inr ?d" by code_simp
  have s2: "ReadLeaders ?s = Inr ?s" by code_simp
  have d3: "peek ?d 0 = Inr CHR ''d''" by code_simp
  have s3: "peek ?s 0 = Inr CHR ''s''" by code_simp
  show ?thesis
    using C8_kind_mismatch_sets_sentinel [OF d1 d2 d3, of 4096 "''hello''" 0 "\<lambda>r. r" 0]
      C8_kind_mismatch_sets_sentinel [OF s1 s2 s3, of 0 "[]" 42 "\<lambda>r. r" 4096]
    by (simp add: NUL_def)
qed

subsection \<open>C9: the result is the sentinel or the number of characters emitted\<close>

text \<open>
  C9: take a sink whose pointer lies within its array, construct a
  \<^verbatim>\<open>PrintfState\<close> on it and feed it any arguments. In the state reached
  after any number of calls the sink holds what it held at construction
  followed by the characters emitted since, and the \<^verbatim>\<open>int\<close> conversion
  gives \<open>-1\<close> or the number of those characters. (\<^verbatim>\<open>Write\<close> is the only
  function that stores to the sink or adds to \<^verbatim>\<open>result_\<close>; a sum that
  leaves the range of \<^verbatim>\<open>int\<close> is a fault of the model, not a state.)
\<close>

theorem C9_result_is_sentinel_or_count:
  assumes "wf_device dev"
    and "PrintfState_ctor dev f = Inr s0"
    and "operator_calls args s0 = Inr (s, stored)"
  shows "emitted (device s) = emitted dev @ emitted_since (emitted dev) s
     \<and> (operator_int s = - 1 \<or> operator_int s = int (length (emitted_since (emitted dev) s)))"
proof -
  have "result_counts (emitted dev) s"
    using PrintfState_ctor_result_counts [OF assms(1,2)] assms(3)
    by (rule operator_calls_result_counts)
  then show ?thesis
    unfolding result_counts_def operator_int_def emitted_since_def
    by (metis append_take_drop_id)
qed

theorem C9_result_is_sentinel_or_count_witness:
  "wf_device (StringDev ''x: '')
   \<and> PrintfState_ctor (StringDev ''x: '') ''%5d|%n%s''
       = Inr \<lparr>device = StringDev ''x: '', fmt = ''%5d|%n%s'', format = 1, width = 0,
               prec = - 1, flags = 0, result = 0\<rparr>
   \<and> operator_calls [AInt 42, AIntPtr 4096, ACStr 8192 ''hello'']
         \<lparr>device = StringDev ''x: '', fmt = ''%5d|%n%s'', format = 1, width = 0,
            prec = - 1, flags = 0, result = 0\<rparr>
       = Inr (\<lparr>device = StringDev ''x:    42|hello'', fmt = ''%5d|%n%s'', format = 8,
                width = 0, prec = - 1, flags = 0, result = 11\<rparr>, [None, Some 6, None])
   \<and> emitted_since (emitted (StringDev ''x: ''))
         \<lparr>device = StringDev ''x:    42|hello'', fmt = ''%5d|%n%s'', format = 8,
            width = 0, prec = - 1, flags = 0, result = 11\<rparr> = ''   42|hello''
   \<and> operator_int
         \<lparr>device = StringDev ''x:    42|hello'', fmt = ''%5d|%n%s'', format = 8,
            width = 0, prec = - 1, flags = 0, result = 11\<rparr>
       = int (length ''   42|hello'')"
proof -
  let ?init = "\<lparr>device = StringDev ''x: '', fmt = ''%5d|%n%s'', format = 1, width = 0,
               prec = - 1, flags = 0, result = 0\<rparr>"
  let ?final = "\<lparr>device = StringDev ''x:    42|hello'', fmt = ''%5d|%n%s'', format = 8,
                width = 0, prec = - 1, flags = 0, result = 11\<rparr>"
  have 1: "wf_device (StringDev ''x: '')"
    by simp
  have 2: "PrintfState_ctor (StringDev ''x: '') ''%5d|%n%s'' = Inr ?init"
    by code_simp
  have 3: "operator_calls [AInt 42, AIntPtr 4096, ACStr 8192 ''hello''] ?init
             = Inr (?final, [None, Some 6, None])"
    by code_simp
  show ?thesis
    using C9_result_is_sentinel_or_count [OF 1 2 3] 1 2 3
    by (simp add: emitted_since_def operator_int_def)
qed

subsection \<open>C6: \<^verbatim>\<open>%%\<close> is one literal \<^verbatim>\<open>%\<close>\<close>

text \<open>
  C6: let the format string continue, from the cursor, with any sequence of
  segments, each either the pair \<^verbatim>\<open>%%\<close> or text without \<^verbatim>\<open>%\<close>, and then
  end or open a directive (a \<^verbatim>\<open>%\<close> not followed by \<^verbatim>\<open>%\<close>). Then
  \<^verbatim>\<open>Advance\<close>, which takes no argument, sends the segments to the sink in
  order, each \<^verbatim>\<open>%%\<close> as one \<^verbatim>\<open>%\<close> and every other segment as it is,
  and leaves the cursor after all of them: at the terminator, or right after
  the \<^verbatim>\<open>%\<close> that opens the directive, which is the one the next argument
  goes to.
\<close>

theorem C6_percent_percent_is_one_percent:
  assumes "\<forall>seg \<in> set segs. seg = ''%%'' \<or> (CHR ''%'' \<notin> set seg \<and> NUL \<notin> set seg)"
    and "rest \<noteq> [] \<longrightarrow> hd rest = CHR ''%'' \<and> (tl rest \<noteq> [] \<longrightarrow> hd (tl rest) \<noteq> CHR ''%'')"
    and "fmt s = pre @ concat segs @ rest"
    and "format s = length pre"
    and "room (length (concat (map (\<lambda>seg. if seg = ''%%'' then ''%'' else seg) segs))) s"
  shows "Advance s =
     Inr (skip (length (concat segs) + (if rest = [] then 0 else 1))
           (emit (concat (map (\<lambda>seg. if seg = ''%%'' then ''%'' else seg) segs))
              (s\<lparr>width := 0, prec := - 1, flags := 0\<rparr>)))"
proof -
  have d: "drop (format s) (fmt s) = concat segs @ rest"
    using assms(3,4) by simp
  have le: "format s \<le> length (fmt s)"
    using assms(3,4) by simp
  note l = literal_segments [OF assms(1,2)]
  have "room (length (literal_text (drop (format s) (fmt s)))) s"
    using assms(5) l unfolding d by simp
  from Advance_literal [OF le this] show ?thesis
    unfolding d using l by simp
qed

theorem C6_percent_percent_is_one_percent_witness:
  "Advance \<lparr>device = StringDev [], fmt = ''a%%b%%%%%d'', format = 0, width = 0, prec = 0,
             flags = 0, result = 0\<rparr>
     = Inr \<lparr>device = StringDev ''a%b%%'', fmt = ''a%%b%%%%%d'', format = 9, width = 0,
             prec = - 1, flags = 0, result = 5\<rparr>"
  using C6_percent_percent_is_one_percent [of "[''a'', ''%%'', ''b'', ''%%'', ''%%'']" "''%d''"
    "\<lparr>device = StringDev [], fmt = ''a%%b%%%%%d'', format = 0, width = 0, prec = 0,
       flags = 0, result = 0\<rparr>" "[]"]
  by (simp add: room_def emit_def skip_def NUL_def INT_MAX_def)

subsection \<open>C7: a string for an \<^verbatim>\<open>s\<close> directive\<close>

text \<open>
  C7 says that a C string fed to an \<^verbatim>\<open>s\<close> directive is copied up to the
  smaller of its length and the precision, all of it when there is no
  precision, and filled with spaces up to the width. The source computes
  \<^verbatim>\<open>std::min(strlen(s), prec_)\<close>, and for a precision written with digits it
  does what the claim says: \<^verbatim>\<open>%.3s\<close> with \<^verbatim>\<open>hello\<close> gives \<^verbatim>\<open>hel\<close>, and
  \<^verbatim>\<open>%.0s\<close> gives nothing. A \<^verbatim>\<open>.\<close> with no digit after it is the
  precision 0 as well. There \<^verbatim>\<open>ReadPrecision\<close> steps over the \<^verbatim>\<open>.\<close> and
  calls \<^verbatim>\<open>ParseDecimalUInt(prec_)\<close>, which returns at its first line, with
  nothing stored, when the next character is not a digit: \<^verbatim>\<open>prec_\<close> stays at
  \<^verbatim>\<open>size_t(-1)\<close>, the value for no precision (the first conjunct is the
  state after \<^verbatim>\<open>ReadLeaders\<close>), and \<^verbatim>\<open>%.s\<close> with \<^verbatim>\<open>hello\<close> gives all
  of \<^verbatim>\<open>hello\<close>, where the precision 0 gives nothing.
\<close>

theorem C7_bare_dot_copies_whole_string:
  "thenF (SPrintf [] ''%.s'') ReadLeaders
       = Inr \<lparr>device = StringDev [], fmt = ''%.s'', format = 2, width = 0, prec = - 1,
               flags = 0, result = 0\<rparr>
   \<and> thenF (SPrintf [] ''%.s'') (op_cstr 4096 ''hello'')
       = Inr \<lparr>device = StringDev ''hello'', fmt = ''%.s'', format = 3, width = 0, prec = - 1,
               flags = 0, result = 5\<rparr>
   \<and> thenF (SPrintf [] ''%7.s|'') (op_cstr 4096 ''hello'')
       = Inr \<lparr>device = StringDev ''  hello|'', fmt = ''%7.s|'', format = 5, width = 0,
               prec = - 1, flags = 0, result = 8\<rparr>
   \<and> thenF (SPrintf [] ''%.0s'') ReadLeaders
       = Inr \<lparr>device = StringDev [], fmt = ''%.0s'', format = 3, width = 0, prec = 0,
               flags = 0, result = 0\<rparr>
   \<and> thenF (SPrintf [] ''%.0s'') (op_cstr 4096 ''hello'')
       = Inr \<lparr>device = StringDev [], fmt = ''%.0s'', format = 4, width = 0, prec = - 1,
               flags = 0, result = 0\<rparr>
   \<and> thenF (SPrintf [] ''%.3s'') (op_cstr 4096 ''hello'')
       = Inr \<lparr>device = StringDev ''hel'', fmt = ''%.3s'', format = 4, width = 0, prec = - 1,
               flags = 0, result = 3\<rparr>"
  by code_simp

subsection \<open>C5: padding an integer field to its width\<close>

text \<open>
  C5 says that an integer field shorter than the width is filled up to the
  width, and that the fill before the digits is zeros when the zero-fill
  flag is set and no precision was given, and spaces otherwise: a precision
  makes the zero-fill flag ignored. The source tests
  \<^verbatim>\<open>FillZeros() && prec_ == size_t(-1)\<close>, and for a precision written with
  digits it does what the claim says: \<^verbatim>\<open>%05.0d\<close> and \<^verbatim>\<open>%05.3d\<close> with 42
  give three spaces and \<^verbatim>\<open>42\<close>, and two spaces and \<^verbatim>\<open>042\<close>. A \<^verbatim>\<open>.\<close>
  with no digit after it is the precision 0 as well. There
  \<^verbatim>\<open>ReadPrecision\<close> steps over the \<^verbatim>\<open>.\<close> and calls
  \<^verbatim>\<open>ParseDecimalUInt(prec_)\<close>, which returns at its first line, with nothing
  stored, when the next character is not a digit: \<^verbatim>\<open>prec_\<close> stays at
  \<^verbatim>\<open>size_t(-1)\<close>, the value for no precision (the first conjunct is the
  state after \<^verbatim>\<open>ReadLeaders\<close>), and \<^verbatim>\<open>%05.d\<close> with 42 gives
  \<^verbatim>\<open>00042\<close>: the zero-fill flag is obeyed although a precision was given.
\<close>

theorem C5_bare_dot_keeps_zero_fill:
  "thenF (SPrintf [] ''%05.d'') ReadLeaders
       = Inr \<lparr>device = StringDev [], fmt = ''%05.d'', format = 4, width = 5, prec = - 1,
               flags = 16, result = 0\<rparr>
   \<and> thenF (SPrintf [] ''%05.d'') (op_int 42)
       = Inr \<lparr>device = StringDev ''00042'', fmt = ''%05.d'', format = 5, width = 0,
               prec = - 1, flags = 0, result = 5\<rparr>
   \<and> thenF (SPrintf [] ''%05.0d'') ReadLeaders
       = Inr \<lparr>device = StringDev [], fmt = ''%05.0d'', format = 5, width = 5, prec = 0,
               flags = 16, result = 0\<rparr>
   \<and> thenF (SPrintf [] ''%05.0d'') (op_int 42)
       = Inr \<lparr>device = StringDev ''   42'', fmt = ''%05.0d'', format = 6, width = 0,
               prec = - 1, flags = 0, result = 5\<rparr>
   \<and> thenF (SPrintf [] ''%05.3d'') (op_int 42)
       = Inr \<lparr>device = StringDev ''  042'', fmt = ''%05.3d'', format = 6, width = 0,
               prec = - 1, flags = 0, result = 5\<rparr>"
  by code_simp

subsection \<open>C3: a signed decimal reads back as the value\<close>

text \<open>
  C3: a \<^verbatim>\<open>long\<close> \<open>n\<close> is fed to a directive whose conversion character
  is \<^verbatim>\<open>d\<close> or \<^verbatim>\<open>i\<close>, with any flags, width and precision. The field
  emitted reads back, as a decimal integer, as \<open>n\<close>, for every \<open>n\<close>
  including \<^verbatim>\<open>LONG_MIN\<close>; with no flag, width or precision the field is
  the minus sign of a negative \<open>n\<close> and the decimal digits of its magnitude.
  (For \<^verbatim>\<open>LONG_MIN\<close> the source renders the unsigned reading of \<open>n + 1\<close>,
  whose last digit is one more than that of the magnitude, and decrements
  that digit.) Then \<^verbatim>\<open>Next()\<close> moves on.
\<close>

theorem C3_decimal_round_trip:
  assumes "ReadLeaders s = Inr s1" and "peek s1 0 = Inr c"
    and "c = CHR ''d'' \<or> c = CHR ''i''"
    and "room (length (int_field c n s1)) s"
  shows "op_long n s = Next (emit (int_field c n s1) s1)
     \<and> parse_decimal (int_field c n s1) = Some (sint n)
     \<and> (width s1 = 0 \<and> prec s1 = - 1 \<and> flags s1 = 0 \<longrightarrow>
          int_field c n s1 =
            (if sint n < 0 then ''-'' else []) @ digits_of 10 False (nat \<bar>sint n\<bar>))"
proof -
  have so: "same_output s s1"
    using assms(1) by (rule ReadLeaders_same_output)
  have nr: "result s \<noteq> - 1"
    using assms(4) by (auto simp: room_def)
  have ns: "c \<noteq> CHR ''*''" and m: "c \<in> set ''diuoxX''" and nx: "c \<notin> set ''xXuo''"
    using assms(3) by auto
  have "room (length (int_field c n s1)) s1"
    using assms(4) so by (simp add: room_def same_output_def)
  from FormatWithCurrentFlags_int_field [OF assms(2) m this]
  have 1: "op_long n s = Next (emit (int_field c n s1) s1)"
    unfolding op_long_def using op_ulong_leaders [OF nr assms(1,2) ns, of n] nx by simp
  have 3: "int_field c n s1 =
            (if sint n < 0 then ''-'' else []) @ digits_of 10 False (nat \<bar>sint n\<bar>)"
    if "width s1 = 0" "prec s1 = - 1" "flags s1 = 0"
    using that assms(3)
    by (auto simp: int_field_def printable_def sign_text_def prefix_text_def prec_zeros_def
        digit_text_def conv_signed_def conv_base_def ShowSignAlways_def Blank_def
        AlternateForm_def)
  show ?thesis
    using 1 parse_int_field [OF assms(3)] 3 by blast
qed

theorem C3_decimal_round_trip_witness:
  "op_long 0x80000000
      \<lparr>device = StringDev [], fmt = ''%d'', format = 1, width = 0, prec = - 1, flags = 0,
         result = 0\<rparr>
     = Inr \<lparr>device = StringDev ''-2147483648'', fmt = ''%d'', format = 2, width = 0,
             prec = - 1, flags = 0, result = 11\<rparr>
   \<and> parse_decimal ''-2147483648'' = Some (sint (0x80000000 :: 32 word))
   \<and> sint (0x80000000 :: 32 word) = LONG_MIN
   \<and> op_long 42
      \<lparr>device = StringDev [], fmt = ''%+7.4i'', format = 1, width = 0, prec = - 1, flags = 0,
         result = 0\<rparr>
     = Inr \<lparr>device = StringDev ''  +0042'', fmt = ''%+7.4i'', format = 6, width = 0,
             prec = - 1, flags = 0, result = 7\<rparr>
   \<and> parse_decimal ''  +0042'' = Some (sint (42 :: 32 word))"
proof -
  let ?a = "\<lparr>device = StringDev [], fmt = ''%d'', format = 1, width = 0, prec = - 1,
              flags = 0, result = 0\<rparr>"
  let ?b = "\<lparr>device = StringDev [], fmt = ''%+7.4i'', format = 1, width = 0, prec = - 1,
              flags = 0, result = 0\<rparr>"
  let ?b1 = "\<lparr>device = StringDev [], fmt = ''%+7.4i'', format = 5, width = 7, prec = 4,
              flags = 2, result = 0\<rparr>"
  have a: "ReadLeaders ?a = Inr ?a" "peek ?a 0 = Inr CHR ''d''"
    "Next (emit ''-2147483648'' ?a)
       = Inr \<lparr>device = StringDev ''-2147483648'', fmt = ''%d'', format = 2, width = 0,
               prec = - 1, flags = 0, result = 11\<rparr>"
    by code_simp+
  have d: "digits_of 10 False 2147483648 = ''2147483648''"
    by (simp add: digits_of.simps digit_of_def char_of_decimal_digits)
  have fa: "int_field CHR ''d'' 0x80000000 ?a = ''-2147483648''"
    by (simp add: int_field_def printable_def sign_text_def prefix_text_def prec_zeros_def
        digit_text_def conv_signed_def conv_base_def d)
  have ra: "room (length (int_field CHR ''d'' 0x80000000 ?a)) ?a"
    unfolding fa by (simp add: room_def INT_MAX_def)
  have b: "ReadLeaders ?b = Inr ?b1" "peek ?b1 0 = Inr CHR ''i''"
    "int_field CHR ''i'' 42 ?b1 = ''  +0042''"
    "Next (emit ''  +0042'' ?b1)
       = Inr \<lparr>device = StringDev ''  +0042'', fmt = ''%+7.4i'', format = 6, width = 0,
               prec = - 1, flags = 0, result = 7\<rparr>"
    by code_simp+
  have rb: "room (length (int_field CHR ''i'' 42 ?b1)) ?b"
    unfolding b(3) by (simp add: room_def INT_MAX_def)
  have m: "sint (0x80000000 :: 32 word) = LONG_MIN"
    by (simp add: LONG_MIN_def)
  note A = C3_decimal_round_trip [OF a(1,2) disjI1 [OF refl] ra, unfolded fa a(3)]
  note B = C3_decimal_round_trip [OF b(1,2) disjI2 [OF refl] rb, unfolded b(3,4)]
  show ?thesis
    using A B m by blast
qed

end
